theory Spec2Isabelle
  imports Main "HOL-Library.Sublist"
begin

section \<open>Python values used by the text cleaner\<close>

text \<open>
  A Python \<open>str\<close> is a sequence of Unicode code points.  Isabelle's \<open>char\<close> is a byte,
  so a string is modelled as a list of code points (natural numbers); \<open>length\<close> then
  counts what Python's \<open>len\<close> counts.
\<close>

type_synonym pystr = "nat list"

definition LF :: nat where "LF = 0x0A"
definition CR :: nat where "CR = 0x0D"
definition HYPHEN :: nat where "HYPHEN = 0x2D"
definition IDEOSP :: nat where "IDEOSP = 0x3000"
definition RUBY_OPEN :: nat where "RUBY_OPEN = 0x300A"
definition RUBY_CLOSE :: nat where "RUBY_CLOSE = 0x300B"
definition NOTE_OPEN :: nat where "NOTE_OPEN = 0xFF3B"
definition NOTE_HASH :: nat where "NOTE_HASH = 0xFF03"
definition NOTE_CLOSE :: nat where "NOTE_CLOSE = 0xFF3D"

text \<open>The colophon marker of the source, the three code points U+5E95 U+672C U+FF1A.\<close>

definition marker :: pystr where
  "marker = [0x5E95, 0x672C, 0xFF1A]"

text \<open>
  Exceptions are values.  \<open>AozoraProcessingError\<close> carries its message; the other
  constructors are the exceptions that the operations used here can raise: \<open>IndexError\<close>
  and \<open>ValueError\<close> from indexing and splitting, and from \<open>zipfile\<close> its own
  \<open>BadZipFile\<close>, \<open>zlib.error\<close> for a compressed stream that does not decompress and
  \<open>NotImplementedError\<close> for a compression method it does not know.
\<close>

datatype error =
  IndexError | ValueError | AozoraProcessingError pystr | BadZipFile | ZlibError
  | NotImplementedError

definition py_index :: "'a list \<Rightarrow> nat \<Rightarrow> error + 'a" where
  \<comment> \<open>\<open>xs[i]\<close> for a non-negative literal index: out of range raises IndexError.\<close>
  "py_index xs i = (if i < length xs then Inr (xs ! i) else Inl IndexError)"

subsection \<open>The fragment of \<open>re\<close> that the source's patterns use\<close>

text \<open>
  The patterns of the source are sequences of single-character atoms, each taken once,
  lazily one-or-more times (\<open>.+?\<close>) or greedily at least n times (\<open>\-{5,}\<close>,
  \<open>\n{3,}\<close>).  \<open>Dot\<close> is \<open>.\<close> without DOTALL: any code point except the line feed.
  \<open>StarLazy\<close> is the state of a \<open>PlusLazy\<close> item after its first repetition.
\<close>

datatype atom = Lit nat | Dot

datatype item = One atom | PlusLazy atom | StarLazy atom | AtLeast nat atom

fun atom_ok :: "atom \<Rightarrow> nat \<Rightarrow> bool" where
  "atom_ok (Lit c) x = (x = c)"
| "atom_ok Dot x = (x \<noteq> LF)"

text \<open>
  \<open>re_match p s\<close> anchors the pattern at the start of \<open>s\<close> and returns what is left of
  \<open>s\<close> after the match that a backtracking matcher finds first: a lazy item tries the
  rest of the pattern before it takes one more character, a greedy item takes one more
  character before it tries the rest of the pattern.
\<close>

fun re_match :: "item list \<Rightarrow> pystr \<Rightarrow> pystr option" where
  "re_match [] s = Some s"
| "re_match (One a # p) [] = None"
| "re_match (One a # p) (c # s) = (if atom_ok a c then re_match p s else None)"
| "re_match (PlusLazy a # p) [] = None"
| "re_match (PlusLazy a # p) (c # s) =
     (if atom_ok a c then re_match (StarLazy a # p) s else None)"
| "re_match (StarLazy a # p) [] = re_match p []"
| "re_match (StarLazy a # p) (c # s) =
     (case re_match p (c # s) of
        Some r \<Rightarrow> Some r
      | None \<Rightarrow> if atom_ok a c then re_match (StarLazy a # p) s else None)"
| "re_match (AtLeast n a # p) [] = (if n = 0 then re_match p [] else None)"
| "re_match (AtLeast n a # p) (c # s) =
     (if atom_ok a c
      then (case re_match (AtLeast (n - 1) a # p) s of
              Some r \<Rightarrow> Some r
            | None \<Rightarrow> if n = 0 then re_match p (c # s) else None)
      else if n = 0 then re_match p (c # s) else None)"

text \<open>
  \<open>re.sub(p, repl, s)\<close> with a literal replacement: the matches are found from left to
  right and do not overlap.  An empty match is replaced too and the scan then moves one
  character on, as Python 3.7 and later do.
\<close>

fun re_sub :: "item list \<Rightarrow> pystr \<Rightarrow> pystr \<Rightarrow> pystr" where
  "re_sub p repl [] = (case re_match p [] of Some r \<Rightarrow> repl | None \<Rightarrow> [])"
| "re_sub p repl (c # s) =
     (case re_match p (c # s) of
        Some r \<Rightarrow>
          if length r < Suc (length s) then repl @ re_sub p repl r
          else repl @ c # re_sub p repl s
      | None \<Rightarrow> c # re_sub p repl s)"

fun cons_hd :: "'a \<Rightarrow> 'a list list \<Rightarrow> 'a list list" where
  "cons_hd c [] = [[c]]"
| "cons_hd c (seg # segs) = (c # seg) # segs"

text \<open>
  \<open>re.split(p, s)\<close> for a pattern without groups: the pieces of \<open>s\<close> between the
  matches, one more piece than there are matches.
\<close>

fun re_split :: "item list \<Rightarrow> pystr \<Rightarrow> pystr list" where
  "re_split p [] = (case re_match p [] of Some r \<Rightarrow> [[], []] | None \<Rightarrow> [[]])"
| "re_split p (c # s) =
     (case re_match p (c # s) of
        Some r \<Rightarrow>
          if length r < Suc (length s) then [] # re_split p r
          else [] # cons_hd c (re_split p s)
      | None \<Rightarrow> cons_hd c (re_split p s))"

subsection \<open>The \<open>str\<close> methods that the source calls\<close>

text \<open>
  \<open>s.split(sep, 1)\<close>: one piece when \<open>sep\<close> does not occur, else what is before the
  first occurrence and what is after it.  An empty separator raises ValueError.
\<close>

fun split_first :: "pystr \<Rightarrow> pystr \<Rightarrow> pystr list" where
  "split_first sep [] = [[]]"
| "split_first sep (c # s) =
     (if prefix sep (c # s) then [[], drop (length sep) (c # s)]
      else cons_hd c (split_first sep s))"

definition str_split1 :: "pystr \<Rightarrow> pystr \<Rightarrow> error + pystr list" where
  "str_split1 s sep = (if sep = [] then Inl ValueError else Inr (split_first sep s))"

text \<open>
  \<open>s.replace(old, new)\<close>: the occurrences of \<open>old\<close> are found from left to right and do
  not overlap.  With an empty \<open>old\<close> Python puts \<open>new\<close> around every character.
\<close>

fun replace_scan :: "pystr \<Rightarrow> pystr \<Rightarrow> pystr \<Rightarrow> pystr" where
  "replace_scan old new [] = []"
| "replace_scan old new (c # s) =
     (if prefix old (c # s) then new @ replace_scan old new (drop (length old - 1) s)
      else c # replace_scan old new s)"

definition str_replace :: "pystr \<Rightarrow> pystr \<Rightarrow> pystr \<Rightarrow> pystr" where
  "str_replace s old new =
     (if old = [] then new @ concat (map (\<lambda>c. c # new) s) else replace_scan old new s)"

text \<open>
  \<open>str.isspace\<close> of one code point: the code points that \<open>s.strip()\<close> removes from
  both ends of a \<open>str\<close>.
\<close>

definition py_isspace :: "nat \<Rightarrow> bool" where
  "py_isspace c \<longleftrightarrow>
     (0x09 \<le> c \<and> c \<le> 0x0D) \<or> (0x1C \<le> c \<and> c \<le> 0x20) \<or> c = 0x85 \<or> c = 0xA0 \<or>
     c = 0x1680 \<or> (0x2000 \<le> c \<and> c \<le> 0x200A) \<or> c = 0x2028 \<or> c = 0x2029 \<or>
     c = 0x202F \<or> c = 0x205F \<or> c = 0x3000"

definition str_strip :: "pystr \<Rightarrow> pystr" where
  "str_strip s = rev (dropWhile py_isspace (rev (dropWhile py_isspace s)))"

section \<open>The text cleaner of \<open>aozora.py\<close>\<close>

definition hyphens_pat :: "item list" where
  \<comment> \<open>\<open>\-{5,}\<close>\<close>
  "hyphens_pat = [AtLeast 5 (Lit HYPHEN)]"

definition ruby_pat :: "item list" where
  \<comment> \<open>an opening double angle bracket, \<open>.+?\<close>, a closing double angle bracket\<close>
  "ruby_pat = [One (Lit RUBY_OPEN), PlusLazy Dot, One (Lit RUBY_CLOSE)]"

definition note_pat :: "item list" where
  \<comment> \<open>a full-width opening square bracket and number sign, \<open>.+?\<close>, a full-width closing square bracket\<close>
  "note_pat = [One (Lit NOTE_OPEN), One (Lit NOTE_HASH), PlusLazy Dot, One (Lit NOTE_CLOSE)]"

definition blank_pat :: "item list" where
  \<comment> \<open>\<open>\n{3,}\<close>\<close>
  "blank_pat = [AtLeast 3 (Lit LF)]"

text \<open>The statements of \<open>_strip_ruby_and_notes\<close>, one function for each.\<close>

definition front_matter :: "pystr \<Rightarrow> error + pystr" where
  \<comment> \<open>\<open>sections = re.split(r"\-{5,}", text); if len(sections) >= 3: text = sections[2]\<close>\<close>
  "front_matter text =
     (let sections = re_split hyphens_pat text
      in if 3 \<le> length sections then py_index sections 2 else Inr text)"

definition colophon :: "pystr \<Rightarrow> error + pystr" where
  \<comment> \<open>\<open>text = text.split(marker, 1)[0]\<close>\<close>
  "colophon text =
     (case str_split1 text marker of Inl e \<Rightarrow> Inl e | Inr parts \<Rightarrow> py_index parts 0)"

definition strip_ruby :: "pystr \<Rightarrow> pystr" where
  "strip_ruby text = re_sub ruby_pat [] text"

definition strip_notes :: "pystr \<Rightarrow> pystr" where
  "strip_notes text = re_sub note_pat [] text"

definition strip_ideographic :: "pystr \<Rightarrow> pystr" where
  \<comment> \<open>\<open>text.replace("\u3000", "")\<close>\<close>
  "strip_ideographic text = str_replace text [IDEOSP] []"

definition unify_newlines :: "pystr \<Rightarrow> pystr" where
  \<comment> \<open>\<open>text.replace("\r\n", "\n")\<close>\<close>
  "unify_newlines text = str_replace text [CR, LF] [LF]"

definition squeeze_blank_lines :: "pystr \<Rightarrow> pystr" where
  \<comment> \<open>\<open>re.sub(r"\n{3,}", "\n\n", text)\<close>\<close>
  "squeeze_blank_lines text = re_sub blank_pat [LF, LF] text"

text \<open>Steps 3 to 8 never raise; \<open>finish\<close> is what the function does after the colophon cut.\<close>

definition finish :: "pystr \<Rightarrow> pystr" where
  "finish text =
     str_strip (squeeze_blank_lines (unify_newlines (strip_ideographic
       (strip_notes (strip_ruby text)))))"

definition strip_ruby_and_notes :: "pystr \<Rightarrow> error + pystr" where
  "strip_ruby_and_notes text =
     (case front_matter text of
        Inl e \<Rightarrow> Inl e
      | Inr text1 \<Rightarrow>
          (case colophon text1 of
             Inl e \<Rightarrow> Inl e
           | Inr text2 \<Rightarrow> Inr (finish text2)))"

section \<open>The copy of the text cleaner in \<open>app.py\<close>\<close>

definition app_strip_ruby_and_notes :: "pystr \<Rightarrow> error + pystr" where
  "app_strip_ruby_and_notes text =
     (let sections = re_split [AtLeast 5 (Lit HYPHEN)] text in
      case (if 3 \<le> length sections then py_index sections 2 else Inr text) of
        Inl e \<Rightarrow> Inl e
      | Inr text1 \<Rightarrow>
          (case str_split1 text1 [0x5E95, 0x672C, 0xFF1A] of
             Inl e \<Rightarrow> Inl e
           | Inr parts \<Rightarrow>
               (case py_index parts 0 of
                  Inl e \<Rightarrow> Inl e
                | Inr text2 \<Rightarrow>
                    (let text3 = re_sub [One (Lit RUBY_OPEN), PlusLazy Dot, One (Lit RUBY_CLOSE)] [] text2;
                         text4 = re_sub [One (Lit NOTE_OPEN), One (Lit NOTE_HASH), PlusLazy Dot,
                                         One (Lit NOTE_CLOSE)] [] text3;
                         text5 = str_replace text4 [IDEOSP] [];
                         text6 = str_replace text5 [CR, LF] [LF];
                         text7 = re_sub [AtLeast 3 (Lit LF)] [LF, LF] text6
                     in Inr (str_strip text7)))))"

section \<open>The eight steps in the words of the specification\<close>

text \<open>
  Step 1: the text is split on runs of five or more hyphens; a run is taken whole.
  When there are at least three segments only the third is kept.
\<close>

function segments :: "pystr \<Rightarrow> pystr list" where
  "segments [] = [[]]"
| "segments (c # s) =
     (if c = HYPHEN \<and> 4 \<le> length (takeWhile (\<lambda>x. x = HYPHEN) s)
      then [] # segments (dropWhile (\<lambda>x. x = HYPHEN) s)
      else cons_hd c (segments s))"
  by pat_completeness auto
termination
  by (relation "measure length") (auto simp: less_Suc_eq_le length_dropWhile_le)

definition spec_front :: "pystr \<Rightarrow> pystr" where
  "spec_front s = (let segs = segments s in if 3 \<le> length segs then segs ! 2 else s)"

text \<open>Step 2: the text is cut at the first occurrence of the marker.\<close>

fun spec_colophon :: "pystr \<Rightarrow> pystr" where
  "spec_colophon [] = []"
| "spec_colophon (c # s) = (if prefix marker (c # s) then [] else c # spec_colophon s)"

text \<open>
  Steps 3 and 4: a span starts at an opening bracket and ends at the nearest closing
  bracket after it.  \<open>close_at allowed cl s\<close> looks for that closing bracket in \<open>s\<close>,
  passing over allowed characters only, and returns what follows it.  The words of the
  specification put no condition on what stands between the brackets
  (\<open>allowed = (\<lambda>c. True)\<close>, \<open>nonempty = False\<close>); the other reading used below is a
  span of one or more characters none of which is a line feed.
\<close>

fun close_at :: "(nat \<Rightarrow> bool) \<Rightarrow> nat \<Rightarrow> pystr \<Rightarrow> pystr option" where
  "close_at allowed cl [] = None"
| "close_at allowed cl (c # s) =
     (if c = cl then Some s else if allowed c then close_at allowed cl s else None)"

definition span_rest :: "(nat \<Rightarrow> bool) \<Rightarrow> bool \<Rightarrow> nat \<Rightarrow> pystr \<Rightarrow> pystr option" where
  "span_rest allowed nonempty cl s =
     (if nonempty
      then (case s of [] \<Rightarrow> None | d # s' \<Rightarrow> if allowed d then close_at allowed cl s' else None)
      else close_at allowed cl s)"

function remove_spans :: "(nat \<Rightarrow> bool) \<Rightarrow> bool \<Rightarrow> pystr \<Rightarrow> nat \<Rightarrow> pystr \<Rightarrow> pystr" where
  "remove_spans allowed nonempty opn cl [] = []"
| "remove_spans allowed nonempty opn cl (c # s) =
     (if prefix opn (c # s)
      then (case span_rest allowed nonempty cl (drop (length opn) (c # s)) of
              Some r \<Rightarrow> remove_spans allowed nonempty opn cl r
            | None \<Rightarrow> c # remove_spans allowed nonempty opn cl s)
      else c # remove_spans allowed nonempty opn cl s)"
  by pat_completeness auto
termination
proof (relation "measure (\<lambda>(allowed, nonempty, opn, cl, s). length s)")
  fix allowed :: "nat \<Rightarrow> bool" and nonempty :: bool and opn :: pystr and cl c :: nat
    and s r :: pystr
  assume found: "span_rest allowed nonempty cl (drop (length opn) (c # s)) = Some r"
  have close: "length r' < length s'" if "close_at allowed cl s' = Some r'" for s' r'
    using that by (induction s') (auto split: if_splits)
  have rest: "length r' < length s'" if "span_rest allowed nonempty cl s' = Some r'" for s' r'
    using that by (auto simp: span_rest_def split: if_splits list.splits dest: close)
  have "length r < length (drop (length opn) (c # s))"
    using found by (rule rest)
  then show "((allowed, nonempty, opn, cl, r), (allowed, nonempty, opn, cl, c # s))
        \<in> measure (\<lambda>(allowed, nonempty, opn, cl, s). length s)"
    by simp
qed auto

text \<open>Step 6: every carriage return that a line feed follows is dropped.\<close>

fun spec_crlf :: "pystr \<Rightarrow> pystr" where
  "spec_crlf (c # d # s) =
     (if c = CR \<and> d = LF then LF # spec_crlf s else c # spec_crlf (d # s))"
| "spec_crlf s = s"

text \<open>Step 7: a run of three or more line feeds becomes two line feeds.\<close>

function spec_collapse :: "pystr \<Rightarrow> pystr" where
  "spec_collapse [] = []"
| "spec_collapse (c # s) =
     (if c = LF \<and> 2 \<le> length (takeWhile (\<lambda>x. x = LF) s)
      then LF # LF # spec_collapse (dropWhile (\<lambda>x. x = LF) s)
      else c # spec_collapse s)"
  by pat_completeness auto
termination
  by (relation "measure length") (auto simp: less_Suc_eq_le length_dropWhile_le)

text \<open>Step 8: the whitespace at the end is removed, then the whitespace at the start.\<close>

definition spec_trim :: "pystr \<Rightarrow> pystr" where
  "spec_trim s = dropWhile py_isspace (rev (dropWhile py_isspace (rev s)))"

text \<open>The eight steps in order; step 5 deletes every ideographic space.\<close>

definition eight_steps :: "(nat \<Rightarrow> bool) \<Rightarrow> bool \<Rightarrow> pystr \<Rightarrow> pystr" where
  "eight_steps allowed nonempty s =
     spec_trim (spec_collapse (spec_crlf (filter (\<lambda>c. c \<noteq> IDEOSP)
       (remove_spans allowed nonempty [NOTE_OPEN, NOTE_HASH] NOTE_CLOSE
         (remove_spans allowed nonempty [RUBY_OPEN] RUBY_CLOSE
           (spec_colophon (spec_front s)))))))"

definition spec_normalize :: "pystr \<Rightarrow> pystr" where
  \<comment> \<open>spans as the specification words them: whatever stands between the brackets\<close>
  "spec_normalize = eight_steps (\<lambda>c. True) False"

definition line_normalize :: "pystr \<Rightarrow> pystr" where
  \<comment> \<open>spans of one or more characters within one line\<close>
  "line_normalize = eight_steps (\<lambda>c. c \<noteq> LF) True"

section \<open>Rules of hyphens\<close>

text \<open>
  The number of maximal runs of hyphens that have five or more hyphens.  \<open>prev\<close> tells
  whether the character before is a hyphen, so that a run is counted once, where it starts.
\<close>

fun count_rules :: "bool \<Rightarrow> pystr \<Rightarrow> nat" where
  "count_rules prev [] = 0"
| "count_rules prev (c # s) =
     (if c = HYPHEN \<and> \<not> prev \<and> 4 \<le> length (takeWhile (\<lambda>x. x = HYPHEN) s) then 1 else 0)
     + count_rules (c = HYPHEN) s"

definition hyphen_rules :: "pystr \<Rightarrow> nat" where
  "hyphen_rules s = count_rules False s"

section \<open>The archive extractor of \<open>aozora.py\<close>\<close>

text \<open>
  \<open>_extract_text_path\<close> calls \<open>zipfile\<close> and \<open>glob\<close>.  What they find is a parameter
  of the model.  \<open>unzipped\<close> is what the \<open>with\<close> block does: either the exception that
  \<open>ZipFile\<close> or \<open>extractall\<close> raises, or the names that \<open>tmp_dir\<close> holds afterwards,
  in the order in which the directory lists them.  \<open>matched\<close> is used when the directory
  part of the glob pattern has magic characters: glob then reads it as a pattern, and
  \<open>matched\<close> gives the directories that it matches, each with the names it holds.
  Paths are POSIX paths.
\<close>

definition cannot_extract_message :: pystr where
  "cannot_extract_message =
     [0x5A, 0x49, 0x50, 0x30D5, 0x30A1, 0x30A4, 0x30EB, 0x3092, 0x5C55, 0x958B, 0x3067, 0x304D,
      0x307E, 0x305B, 0x3093, 0x3002]"

definition no_text_message :: pystr where
  "no_text_message =
     [0x5A, 0x49, 0x50, 0x30D5, 0x30A1, 0x30A4, 0x30EB, 0x304B, 0x3089, 0x30C6, 0x30AD, 0x30B9,
      0x30C8, 0x304C, 0x898B, 0x3064, 0x304B, 0x308A, 0x307E, 0x305B, 0x3093, 0x3002]"

definition SLASH :: nat where "SLASH = 0x2F"
definition DOT :: nat where "DOT = 0x2E"
definition STAR :: nat where "STAR = 0x2A"
definition QUESTION :: nat where "QUESTION = 0x3F"
definition LBRACKET :: nat where "LBRACKET = 0x5B"

definition dot_txt :: pystr where
  \<comment> \<open>the four characters \<open>.txt\<close>\<close>
  "dot_txt = [0x2E, 0x74, 0x78, 0x74]"

definition star_txt :: pystr where
  \<comment> \<open>the five characters \<open>*.txt\<close>\<close>
  "star_txt = [0x2A, 0x2E, 0x74, 0x78, 0x74]"

definition os_path_join :: "pystr \<Rightarrow> pystr \<Rightarrow> pystr" where
  \<comment> \<open>\<open>posixpath.join\<close> of two components\<close>
  "os_path_join a b =
     (if prefix [SLASH] b then b
      else if a = [] \<or> suffix [SLASH] a then a @ b
      else a @ SLASH # b)"

definition os_path_split :: "pystr \<Rightarrow> pystr \<times> pystr" where
  \<comment> \<open>\<open>posixpath.split\<close>: the tail is what follows the last slash; the head is what stands
      before it, without its trailing slashes unless it is made of slashes only\<close>
  "os_path_split p =
     (let tail = rev (takeWhile (\<lambda>c. c \<noteq> SLASH) (rev p));
          head = rev (dropWhile (\<lambda>c. c \<noteq> SLASH) (rev p))
      in (if list_ex (\<lambda>c. c \<noteq> SLASH) head then rev (dropWhile (\<lambda>c. c = SLASH) (rev head))
          else head,
          tail))"

definition glob_has_magic :: "pystr \<Rightarrow> bool" where
  \<comment> \<open>\<open>glob.has_magic\<close>: one of the characters \<open>*\<close>, \<open>?\<close>, \<open>[\<close> occurs\<close>
  "glob_has_magic p = list_ex (\<lambda>c. c = STAR \<or> c = QUESTION \<or> c = LBRACKET) p"

definition glob_hidden :: "pystr \<Rightarrow> bool" where
  \<comment> \<open>\<open>glob._ishidden\<close>: the name starts with a dot\<close>
  "glob_hidden name = prefix [DOT] name"

definition glob1_star_txt :: "pystr list \<Rightarrow> pystr list" where
  \<comment> \<open>\<open>glob._glob1(dirname, "*.txt")\<close> over the names of one directory: the pattern does not
      start with a dot, so the hidden names are left out first; \<open>fnmatch\<close> then keeps the
      names that end in \<open>.txt\<close>\<close>
  "glob1_star_txt names = filter (suffix dot_txt) (filter (\<lambda>name. \<not> glob_hidden name) names)"

definition glob_dirname :: "pystr \<Rightarrow> pystr" where
  \<comment> \<open>the directory part of the pattern \<open>os.path.join(tmp_dir, "*.txt")\<close>\<close>
  "glob_dirname tmp_dir = fst (os_path_split (os_path_join tmp_dir star_txt))"

definition glob_star_txt :: "(pystr \<times> pystr list) list \<Rightarrow> pystr \<Rightarrow> pystr list \<Rightarrow> pystr list" where
  \<comment> \<open>\<open>glob.glob(os.path.join(tmp_dir, "*.txt"))\<close>: the directory part is taken as it is when
      it has no magic character, and is then the directory that \<open>listing\<close> lists;
      otherwise it is itself a pattern.  In each directory the names are matched and
      joined to the directory.\<close>
  "glob_star_txt matched tmp_dir listing =
     (let dirname = glob_dirname tmp_dir;
          dirs = (if glob_has_magic dirname then matched else [(dirname, listing)])
      in concat (map (\<lambda>(dir, names). map (os_path_join dir) (glob1_star_txt names)) dirs))"

definition extract_text_path ::
  "error + pystr list \<Rightarrow> (pystr \<times> pystr list) list \<Rightarrow> pystr \<Rightarrow> error + pystr" where
  "extract_text_path unzipped matched tmp_dir =
     (case unzipped of
        Inl e \<Rightarrow>
          if e = BadZipFile then Inl (AozoraProcessingError cannot_extract_message) else Inl e
      | Inr listing \<Rightarrow>
          (let text_files = glob_star_txt matched tmp_dir listing
           in if text_files = [] then Inl (AozoraProcessingError no_text_message)
              else py_index text_files 0))"

text \<open>The names that \<open>*.txt\<close> matches.\<close>

definition visible_txt :: "pystr \<Rightarrow> bool" where
  "visible_txt name = (suffix dot_txt name \<and> \<not> glob_hidden name)"

section \<open>Texts made of spans\<close>

text \<open>
  A text seen as a sequence of pieces: plain text, a ruby span around a reading, a note
  span around a note.  \<open>render\<close> writes a piece with its brackets, \<open>outside\<close> keeps what
  is not in a span.
\<close>

datatype piece = Plain pystr | Ruby pystr | Note pystr

fun render :: "piece \<Rightarrow> pystr" where
  "render (Plain p) = p"
| "render (Ruby c) = RUBY_OPEN # c @ [RUBY_CLOSE]"
| "render (Note c) = NOTE_OPEN # NOTE_HASH # c @ [NOTE_CLOSE]"

fun outside :: "piece \<Rightarrow> pystr" where
  "outside (Plain p) = p"
| "outside (Ruby c) = []"
| "outside (Note c) = []"

fun without_ruby :: "piece \<Rightarrow> pystr" where
  "without_ruby (Ruby c) = []"
| "without_ruby p = render p"

text \<open>
  A span within one line: the content is not empty and has neither a line feed nor the
  closing bracket of its span; a note holds no opening ruby bracket.  Plain text holds no
  opening bracket of either kind.
\<close>

fun one_line_piece :: "piece \<Rightarrow> bool" where
  "one_line_piece (Plain p) = (RUBY_OPEN \<notin> set p \<and> NOTE_OPEN \<notin> set p)"
| "one_line_piece (Ruby c) = (c \<noteq> [] \<and> LF \<notin> set c \<and> RUBY_CLOSE \<notin> set c)"
| "one_line_piece (Note c) =
     (c \<noteq> [] \<and> LF \<notin> set c \<and> NOTE_CLOSE \<notin> set c \<and> RUBY_OPEN \<notin> set c)"

section \<open>Texts without markers\<close>

text \<open>
  \<open>re_search p s\<close> tells whether the pattern matches somewhere in \<open>s\<close>, as
  \<open>re.search(p, s) is not None\<close> does.  A text is free of markers when it has no rule of
  five or more hyphens, no colophon marker, no ruby span and no note span that the
  patterns of the source would match.
\<close>

fun re_search :: "item list \<Rightarrow> pystr \<Rightarrow> bool" where
  "re_search p [] = (case re_match p [] of Some r \<Rightarrow> True | None \<Rightarrow> False)"
| "re_search p (c # s) = (case re_match p (c # s) of Some r \<Rightarrow> True | None \<Rightarrow> re_search p s)"

definition marker_free :: "pystr \<Rightarrow> bool" where
  "marker_free x =
     (\<not> re_search hyphens_pat x \<and> \<not> sublist marker x
      \<and> \<not> re_search ruby_pat x \<and> \<not> re_search note_pat x)"

section \<open>Evaluation on concrete texts\<close>

lemmas source_defs =
  strip_ruby_and_notes_def front_matter_def colophon_def finish_def hyphens_pat_def
  py_index_def str_split1_def marker_def strip_ruby_def strip_notes_def ruby_pat_def
  note_pat_def strip_ideographic_def unify_newlines_def squeeze_blank_lines_def blank_pat_def
  str_replace_def str_strip_def py_isspace_def LF_def CR_def IDEOSP_def HYPHEN_def
  RUBY_OPEN_def RUBY_CLOSE_def NOTE_OPEN_def NOTE_HASH_def NOTE_CLOSE_def

section \<open>Each statement of the source does what its step says\<close>

subsection \<open>The patterns and the steps\<close>

lemma close_at_shorter: "close_at allowed cl s = Some r \<Longrightarrow> length r < length s"
  by (induction s) (auto split: if_splits)

lemma span_rest_shorter: "span_rest allowed nonempty cl s = Some r \<Longrightarrow> length r < length s"
  by (auto simp: span_rest_def split: if_splits list.splits dest: close_at_shorter)

lemma re_match_at_least:
  "re_match [AtLeast n (Lit h)] s =
     (if n \<le> length (takeWhile (\<lambda>x. x = h) s) then Some (dropWhile (\<lambda>x. x = h) s) else None)"
  by (induction s arbitrary: n) auto

lemma re_match_star_lazy:
  "re_match [StarLazy Dot, One (Lit cl)] s = close_at (\<lambda>x. x \<noteq> LF) cl s"
  by (induction s) auto

lemma re_split_hyphens: "re_split hyphens_pat s = segments s"
  by (induction s rule: segments.induct)
     (auto simp: hyphens_pat_def re_match_at_least less_Suc_eq_le length_dropWhile_le)

lemma front_matter_spec: "front_matter s = Inr (spec_front s)"
  by (simp add: front_matter_def spec_front_def py_index_def re_split_hyphens Let_def)

lemma split_first_marker: "\<exists>rest. split_first marker s = spec_colophon s # rest"
  by (induction s) auto

lemma colophon_spec: "colophon s = Inr (spec_colophon s)"
  using split_first_marker [of s]
  by (auto simp: colophon_def str_split1_def py_index_def marker_def)

lemma re_match_ruby:
  "re_match ruby_pat s =
     (if prefix [RUBY_OPEN] s then span_rest (\<lambda>x. x \<noteq> LF) True RUBY_CLOSE (drop 1 s)
      else None)"
  by (cases s) (auto simp: ruby_pat_def span_rest_def re_match_star_lazy split: list.splits)

lemma re_match_note:
  "re_match note_pat s =
     (if prefix [NOTE_OPEN, NOTE_HASH] s
      then span_rest (\<lambda>x. x \<noteq> LF) True NOTE_CLOSE (drop 2 s) else None)"
proof (cases s)
  case Nil
  then show ?thesis by (simp add: note_pat_def)
next
  case (Cons c t)
  then show ?thesis
    by (cases t) (auto simp: note_pat_def span_rest_def re_match_star_lazy split: list.splits)
qed

lemma strip_ruby_spec:
  "strip_ruby s = remove_spans (\<lambda>x. x \<noteq> LF) True [RUBY_OPEN] RUBY_CLOSE s"
proof (induction s rule: length_induct)
  case (1 s)
  show ?case
  proof (cases s)
    case Nil
    then show ?thesis by (simp add: strip_ruby_def ruby_pat_def)
  next
    case (Cons c t)
    show ?thesis
    proof (cases "re_match ruby_pat s")
      case None
      then show ?thesis
        using 1 Cons by (auto simp: strip_ruby_def re_match_ruby split: if_splits)
    next
      case (Some r)
      then have sp: "span_rest (\<lambda>x. x \<noteq> LF) True RUBY_CLOSE t = Some r"
        and c: "c = RUBY_OPEN"
        using Cons by (auto simp: re_match_ruby split: if_splits)
      then have "length r < length t" by (auto dest: span_rest_shorter)
      then show ?thesis
        using 1 Cons Some sp c by (auto simp: strip_ruby_def)
    qed
  qed
qed

lemma strip_notes_spec:
  "strip_notes s = remove_spans (\<lambda>x. x \<noteq> LF) True [NOTE_OPEN, NOTE_HASH] NOTE_CLOSE s"
proof (induction s rule: length_induct)
  case (1 s)
  show ?case
  proof (cases s)
    case Nil
    then show ?thesis by (simp add: strip_notes_def note_pat_def)
  next
    case (Cons c t)
    show ?thesis
    proof (cases "re_match note_pat s")
      case None
      then show ?thesis
        using 1 Cons by (auto simp: strip_notes_def re_match_note split: if_splits)
    next
      case (Some r)
      then have sp: "span_rest (\<lambda>x. x \<noteq> LF) True NOTE_CLOSE (drop 2 s) = Some r"
        and c: "prefix [NOTE_OPEN, NOTE_HASH] s"
        by (auto simp: re_match_note split: if_splits)
      then have "length r < length s" by (auto dest!: span_rest_shorter)
      then show ?thesis
        using 1 Cons Some sp c by (auto simp: strip_notes_def)
    qed
  qed
qed

lemma strip_ideographic_spec: "strip_ideographic s = filter (\<lambda>c. c \<noteq> IDEOSP) s"
  by (induction s) (auto simp: strip_ideographic_def str_replace_def)

lemma unify_newlines_spec: "unify_newlines s = spec_crlf s"
  by (induction s rule: spec_crlf.induct) (auto simp: unify_newlines_def str_replace_def)

lemma squeeze_blank_lines_spec: "squeeze_blank_lines s = spec_collapse s"
  unfolding squeeze_blank_lines_def
  by (induction s rule: spec_collapse.induct)
     (auto simp: blank_pat_def re_match_at_least less_Suc_eq_le length_dropWhile_le)

lemma rstrip_Cons:
  "rev (dropWhile P (rev (c # t))) =
     (if \<forall>x\<in>set t. P x then (if P c then [] else [c]) else c # rev (dropWhile P (rev t)))"
  by (auto simp: dropWhile_append)

lemma strip_commute:
  "rev (dropWhile P (rev (dropWhile P s))) = dropWhile P (rev (dropWhile P (rev s)))"
proof (induction s)
  case Nil
  then show ?case by simp
next
  case (Cons c t)
  show ?case
  proof (cases "P c")
    case True
    show ?thesis
    proof (cases "\<forall>x\<in>set t. P x")
      case all: True
      then have "dropWhile P t = []" by simp
      then show ?thesis using True all by (simp only: rstrip_Cons dropWhile.simps) simp
    next
      case False
      then show ?thesis using True Cons by (simp only: rstrip_Cons dropWhile.simps) simp
    qed
  next
    case False
    define R where "R = rev (dropWhile P (rev (c # t)))"
    have "R = c # tl R"
      using False unfolding R_def rstrip_Cons by simp
    then have "dropWhile P R = R"
      using False by (metis dropWhile.simps(2))
    moreover have "dropWhile P (c # t) = c # t"
      using False by simp
    ultimately show ?thesis
      unfolding R_def by (simp only:)
  qed
qed

lemma str_strip_spec: "str_strip s = spec_trim s"
  by (simp add: str_strip_def spec_trim_def strip_commute)

lemma strip_ruby_and_notes_steps:
  "strip_ruby_and_notes s = Inr (finish (spec_colophon (spec_front s)))"
  by (simp add: strip_ruby_and_notes_def front_matter_spec colophon_spec)

lemma finish_spec:
  "finish s = spec_trim (spec_collapse (spec_crlf (filter (\<lambda>c. c \<noteq> IDEOSP)
       (remove_spans (\<lambda>c. c \<noteq> LF) True [NOTE_OPEN, NOTE_HASH] NOTE_CLOSE
         (remove_spans (\<lambda>c. c \<noteq> LF) True [RUBY_OPEN] RUBY_CLOSE s)))))"
  by (simp add: finish_def str_strip_spec squeeze_blank_lines_spec unify_newlines_spec
      strip_ideographic_spec strip_notes_spec strip_ruby_spec)

subsection \<open>Segments and rules of hyphens\<close>

lemma count_rules_inside: "count_rules True s = count_rules False (dropWhile (\<lambda>x. x = HYPHEN) s)"
  by (induction s) auto

lemma count_rules_short:
  "length (takeWhile (\<lambda>x. x = HYPHEN) s) < 5 \<Longrightarrow>
     count_rules False s = count_rules False (dropWhile (\<lambda>x. x = HYPHEN) s)"
  by (cases s) (auto simp: count_rules_inside)

lemma length_cons_hd: "segs \<noteq> [] \<Longrightarrow> length (cons_hd c segs) = length segs"
  by (cases segs) auto

lemma length_segments: "length (segments s) = Suc (count_rules False s)"
proof (induction s rule: segments.induct)
  case 1
  then show ?case by simp
next
  case (2 c s)
  show ?case
  proof (cases "c = HYPHEN \<and> 4 \<le> length (takeWhile (\<lambda>x. x = HYPHEN) s)")
    case True
    then show ?thesis using 2 by (simp add: count_rules_inside)
  next
    case False
    then have ih: "length (segments s) = Suc (count_rules False s)" using 2 by simp
    then have ne: "segments s \<noteq> []" by auto
    have "count_rules (c = HYPHEN) s = count_rules False s"
    proof (cases "c = HYPHEN")
      case True
      then have "length (takeWhile (\<lambda>x. x = HYPHEN) s) < 5" using False by simp
      then show ?thesis using True by (simp add: count_rules_inside count_rules_short)
    next
      case False
      then show ?thesis by simp
    qed
    then show ?thesis using False ih ne by (auto simp: length_cons_hd)
  qed
qed

subsection \<open>The cut at the colophon marker\<close>



subsection \<open>The names that the glob pattern matches\<close>

lemma find_filter: "find P xs = Some x \<Longrightarrow> \<exists>rest. filter P xs = x # rest"
  by (induction xs) (auto split: if_splits)

lemma glob1_star_txt_filter: "glob1_star_txt names = filter visible_txt names"
proof -
  have "visible_txt = (\<lambda>name. \<not> glob_hidden name \<and> suffix dot_txt name)"
    by (auto simp: visible_txt_def)
  then show ?thesis by (simp add: glob1_star_txt_def)
qed

lemma os_path_split_head: "SLASH \<notin> set t \<Longrightarrow> set (fst (os_path_split (a @ t))) \<subseteq> set a"
proof -
  assume t: "SLASH \<notin> set t"
  define h where "h = rev (dropWhile (\<lambda>c. c \<noteq> SLASH) (rev a))"
  have "dropWhile (\<lambda>c. c \<noteq> SLASH) (rev t @ rev a) = dropWhile (\<lambda>c. c \<noteq> SLASH) (rev a)"
    using t by (intro dropWhile_append2) auto
  then have head: "rev (dropWhile (\<lambda>c. c \<noteq> SLASH) (rev (a @ t))) = h"
    by (simp add: h_def)
  have "set h \<subseteq> set a" unfolding h_def by (auto dest: set_dropWhileD)
  moreover have "set (rev (dropWhile (\<lambda>c. c = SLASH) (rev h))) \<subseteq> set h"
    by (auto dest: set_dropWhileD)
  ultimately show ?thesis
    unfolding os_path_split_def Let_def head by auto
qed

lemma glob_dirname_set: "set (glob_dirname d) \<subseteq> insert SLASH (set d)"
proof -
  have t: "SLASH \<notin> set star_txt" and p: "\<not> prefix [SLASH] star_txt"
    by (simp_all add: star_txt_def SLASH_def)
  have "os_path_join d star_txt = d @ star_txt \<or> os_path_join d star_txt = (d @ [SLASH]) @ star_txt"
    using p by (simp add: os_path_join_def)
  then show ?thesis
    using os_path_split_head [OF t, of d] os_path_split_head [OF t, of "d @ [SLASH]"]
    by (auto simp: glob_dirname_def)
qed

lemma glob_dirname_magic: "\<not> glob_has_magic d \<Longrightarrow> \<not> glob_has_magic (glob_dirname d)"
  using glob_dirname_set [of d]
  by (auto simp: glob_has_magic_def list_ex_iff SLASH_def STAR_def QUESTION_def LBRACKET_def)

lemma glob_star_txt_plain:
  "\<not> glob_has_magic d \<Longrightarrow>
     glob_star_txt matched d listing
       = map (os_path_join (glob_dirname d)) (filter visible_txt listing)"
  by (simp add: glob_star_txt_def glob_dirname_magic glob1_star_txt_filter)

lemma glob_dirname_plain:
  assumes "d \<noteq> []" and "last d \<noteq> SLASH"
  shows "glob_dirname d = d"
proof -
  have t: "\<forall>c\<in>set (rev star_txt). c \<noteq> SLASH" and p: "\<not> prefix [SLASH] star_txt"
    by (simp_all add: star_txt_def SLASH_def)
  have ns: "\<not> suffix [SLASH] d" using assms by (auto simp: suffix_def)
  have j: "os_path_join d star_txt = d @ SLASH # star_txt"
    using p ns assms(1) by (simp add: os_path_join_def)
  have "dropWhile (\<lambda>c. c \<noteq> SLASH) (rev star_txt @ SLASH # rev d)
      = dropWhile (\<lambda>c. c \<noteq> SLASH) (SLASH # rev d)"
    using t by (intro dropWhile_append2) auto
  then have "dropWhile (\<lambda>c. c \<noteq> SLASH) (rev star_txt @ SLASH # rev d) = SLASH # rev d"
    by simp
  then have head: "rev (dropWhile (\<lambda>c. c \<noteq> SLASH) (rev (d @ SLASH # star_txt))) = d @ [SLASH]"
    by simp
  have ex: "list_ex (\<lambda>c. c \<noteq> SLASH) (d @ [SLASH])"
    using assms by (auto simp: list_ex_iff intro: bexI [of _ "last d"])
  obtain x xs where r: "rev d = x # xs" using assms(1) by (cases "rev d") auto
  then have "x = last d" by (metis hd_rev list.sel(1))
  then have "dropWhile (\<lambda>c. c = SLASH) (x # xs) = x # xs" using assms(2) by simp
  then have "dropWhile (\<lambda>c. c = SLASH) (rev d) = rev d" unfolding r .
  then have "dropWhile (\<lambda>c. c = SLASH) (SLASH # rev d) = rev d" by simp
  then have "rev (dropWhile (\<lambda>c. c = SLASH) (rev (d @ [SLASH]))) = d" by simp
  then show ?thesis
    unfolding glob_dirname_def j os_path_split_def Let_def head using ex by simp
qed

subsection \<open>Runs of line feeds\<close>

lemma spec_collapse_set: "set (spec_collapse s) = set s"
proof (induction s rule: spec_collapse.induct)
  case 1
  then show ?case by simp
next
  case (2 c s)
  show ?case
  proof (cases "c = LF \<and> 2 \<le> length (takeWhile (\<lambda>x. x = LF) s)")
    case True
    have "set s = set (takeWhile (\<lambda>x. x = LF) s) \<union> set (dropWhile (\<lambda>x. x = LF) s)"
      by (metis set_append takeWhile_dropWhile_id)
    moreover have "set (takeWhile (\<lambda>x. x = LF) s) \<subseteq> {LF}"
      by (auto dest: set_takeWhileD)
    ultimately show ?thesis using True 2(1) by auto
  next
    case False
    then show ?thesis using 2(2) by auto
  qed
qed
lemma spec_collapse_last:
  "s \<noteq> [] \<Longrightarrow> spec_collapse s \<noteq> [] \<and> last (spec_collapse s) = last s"
proof (induction s rule: spec_collapse.induct)
  case 1
  then show ?case by simp
next
  case (2 c s)
  show ?case
  proof (cases "c = LF \<and> 2 \<le> length (takeWhile (\<lambda>x. x = LF) s)")
    case True
    define d where "d = dropWhile (\<lambda>x. x = LF) s"
    have s: "s = takeWhile (\<lambda>x. x = LF) s @ d" by (simp add: d_def)
    have tw: "takeWhile (\<lambda>x. x = LF) s \<noteq> []" using True by auto
    have sne: "s \<noteq> []" using tw by auto
    have step: "spec_collapse (c # s) = LF # LF # spec_collapse d"
      using True by (simp add: d_def)
    show ?thesis
    proof (cases "d = []")
      case dn: True
      then have "s = takeWhile (\<lambda>x. x = LF) s" using s by simp
      then have "last s \<in> set (takeWhile (\<lambda>x. x = LF) s)" using tw by (metis last_in_set)
      then have "last s = LF" by (auto dest: set_takeWhileD)
      then have "last (c # s) = LF" using sne by simp
      moreover have "spec_collapse (c # s) = [LF, LF]" using step dn by simp
      ultimately show ?thesis by simp
    next
      case False
      then have "last s = last d" using s by (metis last_appendR)
      then have l: "last (c # s) = last d" using sne by simp
      have "spec_collapse d \<noteq> [] \<and> last (spec_collapse d) = last d"
        using 2(1) True False by (simp add: d_def)
      then show ?thesis using step l by simp
    qed
  next
    case False
    then show ?thesis using 2(2) by (cases "s = []") auto
  qed
qed

lemma spec_collapse_hd: "prefix [x] (spec_collapse s) = prefix [x] s"
  by (cases s) auto

lemma spec_collapse_append:
  "a \<noteq> [] \<Longrightarrow> last a \<noteq> LF \<Longrightarrow> spec_collapse (a @ s) = spec_collapse a @ spec_collapse s"
proof (induction a rule: spec_collapse.induct)
  case 1
  then show ?case by simp
next
  case (2 c a)
  show ?case
  proof (cases "a = []")
    case True
    then show ?thesis using 2(3,4) by simp
  next
    case False
    then have la: "last a \<noteq> LF" using 2(4) by simp
    then have mem: "last a \<in> set a" "\<not> (last a = LF)" using False by auto
    have tw: "takeWhile (\<lambda>x. x = LF) (a @ s) = takeWhile (\<lambda>x. x = LF) a"
      using mem by (metis (mono_tags, lifting) takeWhile_append1)
    have dw: "dropWhile (\<lambda>x. x = LF) (a @ s) = dropWhile (\<lambda>x. x = LF) a @ s"
      using mem by (metis (mono_tags, lifting) dropWhile_append1)
    show ?thesis
    proof (cases "c = LF \<and> 2 \<le> length (takeWhile (\<lambda>x. x = LF) a)")
      case True
      define d where "d = dropWhile (\<lambda>x. x = LF) a"
      have "last a \<in> set d"
        using mem by (metis (mono_tags, lifting) d_def False append_butlast_last_id
            dropWhile_append3 in_set_conv_decomp)
      then have dne: "d \<noteq> []" by auto
      have "a = takeWhile (\<lambda>x. x = LF) a @ d" by (simp add: d_def)
      then have "last d = last a" using dne by (metis last_appendR)
      then have "spec_collapse (d @ s) = spec_collapse d @ spec_collapse s"
        using 2(1) True dne la by (simp add: d_def)
      then show ?thesis using True tw dw by (simp add: d_def)
    next
      case nr: False
      then show ?thesis using 2(2) False la tw by auto
    qed
  qed
qed

lemma takeWhile_replicate_append:
  "takeWhile (\<lambda>x. x = c) (replicate m c @ b) = replicate m c @ takeWhile (\<lambda>x. x = c) b"
  by (induction m) auto

lemma dropWhile_replicate_append:
  "dropWhile (\<lambda>x. x = c) (replicate m c @ b) = dropWhile (\<lambda>x. x = c) b"
  by (induction m) auto

lemma spec_collapse_run:
  assumes "3 \<le> n" and "\<not> prefix [LF] b"
  shows "spec_collapse (replicate n LF @ b) = LF # LF # spec_collapse b"
proof -
  obtain m where m: "n = Suc m" "2 \<le> m" using assms(1) by (cases n) auto
  have tw: "takeWhile (\<lambda>x. x = LF) b = []" and dw: "dropWhile (\<lambda>x. x = LF) b = b"
    using assms(2) by (cases b; simp)+
  show ?thesis
    using m tw dw by (simp add: takeWhile_replicate_append dropWhile_replicate_append)
qed

lemma strip_around:
  assumes "list_ex (\<lambda>c. \<not> P c) A" and "list_ex (\<lambda>c. \<not> P c) B"
  shows "rev (dropWhile P (rev (dropWhile P (A @ M @ B))))
           = dropWhile P A @ M @ rev (dropWhile P (rev B))"
proof -
  obtain x where x: "x \<in> set A" "\<not> P x" using assms(1) by (auto simp: list_ex_iff)
  obtain y where y: "y \<in> set (rev B)" "\<not> P y" using assms(2) by (auto simp: list_ex_iff)
  have 1: "dropWhile P (A @ M @ B) = dropWhile P A @ M @ B"
    using x by simp
  have "rev (dropWhile P A @ M @ B) = rev B @ (rev M @ rev (dropWhile P A))" by simp
  then have "dropWhile P (rev (dropWhile P A @ M @ B))
               = dropWhile P (rev B) @ (rev M @ rev (dropWhile P A))"
    using dropWhile_append1 [of y "rev B" P "rev M @ rev (dropWhile P A)"] y by simp
  then show ?thesis using 1 by simp
qed

subsection \<open>Spans that do not interfere\<close>

lemma remove_spans_plain:
  "op0 \<notin> set p \<Longrightarrow>
     remove_spans allowed nonempty (op0 # ops) cl (p @ s)
       = p @ remove_spans allowed nonempty (op0 # ops) cl s"
  by (induction p) auto

lemma close_at_skip:
  "\<forall>x\<in>set u. allowed x \<and> x \<noteq> cl \<Longrightarrow> close_at allowed cl (u @ cl # r) = Some r"
  by (induction u) auto

lemma span_rest_content:
  assumes "c \<noteq> []" and "\<forall>x\<in>set c. allowed x \<and> x \<noteq> cl"
  shows "span_rest allowed True cl (c @ cl # r) = Some r"
proof -
  obtain d c' where c: "c = d # c'" using assms(1) by (cases c) auto
  then show ?thesis using assms(2) by (simp add: span_rest_def close_at_skip)
qed

lemma remove_ruby_span:
  assumes "c \<noteq> []" and "LF \<notin> set c" and "RUBY_CLOSE \<notin> set c"
  shows "remove_spans (\<lambda>x. x \<noteq> LF) True [RUBY_OPEN] RUBY_CLOSE (RUBY_OPEN # c @ RUBY_CLOSE # s)
           = remove_spans (\<lambda>x. x \<noteq> LF) True [RUBY_OPEN] RUBY_CLOSE s"
proof -
  have "span_rest (\<lambda>x. x \<noteq> LF) True RUBY_CLOSE (c @ RUBY_CLOSE # s) = Some s"
    using assms by (intro span_rest_content) auto
  then show ?thesis by simp
qed

lemma remove_note_span:
  assumes "c \<noteq> []" and "LF \<notin> set c" and "NOTE_CLOSE \<notin> set c"
  shows "remove_spans (\<lambda>x. x \<noteq> LF) True [NOTE_OPEN, NOTE_HASH] NOTE_CLOSE
           (NOTE_OPEN # NOTE_HASH # c @ NOTE_CLOSE # s)
           = remove_spans (\<lambda>x. x \<noteq> LF) True [NOTE_OPEN, NOTE_HASH] NOTE_CLOSE s"
proof -
  have "span_rest (\<lambda>x. x \<noteq> LF) True NOTE_CLOSE (c @ NOTE_CLOSE # s) = Some s"
    using assms by (intro span_rest_content) auto
  then show ?thesis by simp
qed

lemma strip_ruby_pieces:
  "list_all one_line_piece ps \<Longrightarrow>
     strip_ruby (concat (map render ps) @ s) = concat (map without_ruby ps) @ strip_ruby s"
proof (induction ps)
  case Nil
  then show ?case by simp
next
  case (Cons p ps)
  then have ih: "strip_ruby (concat (map render ps) @ s)
      = concat (map without_ruby ps) @ strip_ruby s" by simp
  show ?case
  proof (cases p)
    case (Plain t)
    then have "RUBY_OPEN \<notin> set t" using Cons.prems by simp
    then show ?thesis
      using ih Plain by (simp add: strip_ruby_spec remove_spans_plain)
  next
    case (Ruby c)
    then have "c \<noteq> []" "LF \<notin> set c" "RUBY_CLOSE \<notin> set c" using Cons.prems by simp_all
    then show ?thesis
      using ih Ruby by (simp add: strip_ruby_spec remove_ruby_span del: remove_spans.simps)
  next
    case (Note c)
    then have "RUBY_OPEN \<notin> set (NOTE_OPEN # NOTE_HASH # c @ [NOTE_CLOSE])"
      using Cons.prems
      by (simp add: RUBY_OPEN_def NOTE_OPEN_def NOTE_HASH_def NOTE_CLOSE_def)
    then have "remove_spans (\<lambda>x. x \<noteq> LF) True [RUBY_OPEN] RUBY_CLOSE
        ((NOTE_OPEN # NOTE_HASH # c @ [NOTE_CLOSE]) @ (concat (map render ps) @ s))
      = (NOTE_OPEN # NOTE_HASH # c @ [NOTE_CLOSE])
        @ remove_spans (\<lambda>x. x \<noteq> LF) True [RUBY_OPEN] RUBY_CLOSE (concat (map render ps) @ s)"
      by (rule remove_spans_plain)
    then show ?thesis
      using ih Note by (simp add: strip_ruby_spec)
  qed
qed

lemma strip_notes_pieces:
  "list_all one_line_piece ps \<Longrightarrow>
     strip_notes (concat (map without_ruby ps) @ s) = concat (map outside ps) @ strip_notes s"
proof (induction ps)
  case Nil
  then show ?case by simp
next
  case (Cons p ps)
  then have ih: "strip_notes (concat (map without_ruby ps) @ s)
      = concat (map outside ps) @ strip_notes s" by simp
  show ?case
  proof (cases p)
    case (Plain t)
    then have "NOTE_OPEN \<notin> set t" using Cons.prems by simp
    then show ?thesis
      using ih Plain by (simp add: strip_notes_spec remove_spans_plain)
  next
    case (Ruby c)
    then show ?thesis using ih by simp
  next
    case (Note c)
    then have "c \<noteq> []" "LF \<notin> set c" "NOTE_CLOSE \<notin> set c" using Cons.prems by simp_all
    then show ?thesis
      using ih Note by (simp add: strip_notes_spec remove_note_span del: remove_spans.simps)
  qed
qed

lemma strip_spans_pieces:
  "list_all one_line_piece ps \<Longrightarrow>
     strip_notes (strip_ruby (concat (map render ps))) = concat (map outside ps)"
  using strip_ruby_pieces [of ps "[]"] strip_notes_pieces [of ps "[]"]
  by (simp add: strip_ruby_def strip_notes_def ruby_pat_def note_pat_def)

subsection \<open>What the last four statements leave\<close>

lemma sublist_str_strip: "sublist (str_strip s) s"
proof -
  have "sublist (rev (str_strip s)) (rev (dropWhile py_isspace s))"
    unfolding str_strip_def by simp
  then have "sublist (str_strip s) (dropWhile py_isspace s)" by simp
  moreover have "sublist (dropWhile py_isspace s) s" by simp
  ultimately show ?thesis by (rule sublist_order.order_trans)
qed

lemma str_strip_ends:
  "takeWhile py_isspace (str_strip s) = [] \<and> takeWhile py_isspace (rev (str_strip s)) = []"
proof -
  have nohd: "takeWhile P (dropWhile P z) = []" for P :: "nat \<Rightarrow> bool" and z
    by (induction z) auto
  have "takeWhile py_isspace (spec_trim s) = []"
    unfolding spec_trim_def by (rule nohd)
  moreover have "takeWhile py_isspace (rev (str_strip s)) = []"
    unfolding str_strip_def by (simp add: nohd)
  ultimately show ?thesis by (simp add: str_strip_spec)
qed

lemma spec_crlf_set: "set (spec_crlf s) \<subseteq> set s"
  by (induction s rule: spec_crlf.induct) auto

lemma spec_collapse_two: "prefix [LF, LF] (spec_collapse s) = prefix [LF, LF] s"
proof (cases s)
  case Nil
  then show ?thesis by simp
next
  case (Cons c t)
  show ?thesis
  proof (cases "c = LF \<and> 2 \<le> length (takeWhile (\<lambda>x. x = LF) t)")
    case True
    then obtain d t' where "t = d # t'" "d = LF" by (cases t) (auto split: if_splits)
    then show ?thesis using True Cons by simp
  next
    case False
    have "prefix [LF] (spec_collapse t) = prefix [LF] t" by (rule spec_collapse_hd)
    then show ?thesis using False Cons by auto
  qed
qed

lemma spec_collapse_no_three: "\<not> sublist [LF, LF, LF] (spec_collapse s)"
proof (induction s rule: spec_collapse.induct)
  case 1
  then show ?case by simp
next
  case (2 c s)
  show ?case
  proof (cases "c = LF \<and> 2 \<le> length (takeWhile (\<lambda>x. x = LF) s)")
    case True
    define d where "d = dropWhile (\<lambda>x. x = LF) s"
    have "\<not> prefix [LF] d"
    proof
      assume "prefix [LF] d"
      then obtain r where "d = LF # r" by (auto simp: prefix_def)
      then have "dropWhile (\<lambda>x. x = LF) s \<noteq> []" and "hd (dropWhile (\<lambda>x. x = LF) s) = LF"
        by (simp_all add: d_def)
      then show False using hd_dropWhile [of "\<lambda>x. x = LF" s] by simp
    qed
    then have nl: "\<not> prefix [LF] (spec_collapse d)" by (simp add: spec_collapse_hd)
    have ih: "\<not> sublist [LF, LF, LF] (spec_collapse d)" using 2(1) True by (simp add: d_def)
    have nl2: "\<not> prefix [LF, LF] (spec_collapse d)" using nl by (auto simp: prefix_def)
    have step: "spec_collapse (c # s) = LF # LF # spec_collapse d"
      using True by (simp add: d_def)
    have "\<not> sublist [LF, LF, LF] (LF # LF # spec_collapse d)"
      using nl nl2 ih by (simp add: sublist_Cons_right)
    then show ?thesis by (simp only: step) simp
  next
    case False
    then have ih: "\<not> sublist [LF, LF, LF] (spec_collapse s)" using 2(2) by simp
    have "\<not> prefix [LF, LF, LF] (c # spec_collapse s)"
    proof
      assume "prefix [LF, LF, LF] (c # spec_collapse s)"
      then have "c = LF" and "prefix [LF, LF] (spec_collapse s)" by auto
      then have "c = LF" and "prefix [LF, LF] s" by (simp_all add: spec_collapse_two)
      then obtain s' where "s = LF # LF # s'" by (auto simp: prefix_def)
      then show False using False \<open>c = LF\<close> by simp
    qed
    moreover have "spec_collapse (c # s) = c # spec_collapse s" using False by auto
    ultimately show ?thesis using ih by (simp only: sublist_Cons_right) simp
  qed
qed

lemma spec_crlf_hd: "prefix [LF] (spec_crlf u) \<Longrightarrow> prefix [LF] u \<or> prefix [CR, LF] u"
  by (cases u rule: spec_crlf.cases) (auto split: if_splits)

lemma spec_crlf_no_pair:
  "\<not> sublist [CR, CR, LF] t \<Longrightarrow> \<not> sublist [CR, LF] (spec_crlf t)"
proof (induction t rule: spec_crlf.induct)
  case (1 c d s)
  show ?case
  proof (cases "c = CR \<and> d = LF")
    case True
    have "\<not> sublist [CR, CR, LF] s" using 1(3) by (auto simp: sublist_Cons_right)
    then have "\<not> sublist [CR, LF] (spec_crlf s)" using 1(1) True by simp
    then show ?thesis using True by (auto simp: sublist_Cons_right CR_def LF_def)
  next
    case False
    have "\<not> sublist [CR, CR, LF] (d # s)" using 1(3) by (auto simp: sublist_Cons_right)
    then have ih: "\<not> sublist [CR, LF] (spec_crlf (d # s))" using 1(2) False by simp
    have "\<not> prefix [CR, LF] (c # spec_crlf (d # s))"
    proof
      assume "prefix [CR, LF] (c # spec_crlf (d # s))"
      then have c: "c = CR" and "prefix [LF] (spec_crlf (d # s))" by auto
      then have "prefix [LF] (d # s) \<or> prefix [CR, LF] (d # s)" by (auto dest: spec_crlf_hd)
      then show False
      proof
        assume "prefix [LF] (d # s)"
        then show False using False c by simp
      next
        assume "prefix [CR, LF] (d # s)"
        then have "prefix [CR, CR, LF] (c # d # s)" using c by simp
        then show False using 1(3) by (auto simp: sublist_Cons_right)
      qed
    qed
    moreover have "spec_crlf (c # d # s) = c # spec_crlf (d # s)" using False by auto
    ultimately show ?thesis using ih by (simp only: sublist_Cons_right) simp
  qed
qed (simp_all add: sublist_Cons_right)

lemma sublist_dropWhile_Cons: "sublist m (dropWhile P s) \<Longrightarrow> sublist m (c # s)"
proof -
  assume "sublist m (dropWhile P s)"
  moreover have "sublist (dropWhile P s) (c # s)"
    by (metis sublist_Cons_right sublist_dropWhile)
  ultimately show ?thesis by (rule sublist_order.order_trans)
qed

lemma spec_collapse_pair: "sublist [CR, LF] (spec_collapse t) \<Longrightarrow> sublist [CR, LF] t"
proof (induction t rule: spec_collapse.induct)
  case 1
  then show ?case by simp
next
  case (2 c s)
  show ?case
  proof (cases "c = LF \<and> 2 \<le> length (takeWhile (\<lambda>x. x = LF) s)")
    case True
    then have "sublist [CR, LF] (spec_collapse (dropWhile (\<lambda>x. x = LF) s))"
      using 2(3) by (auto simp: sublist_Cons_right CR_def LF_def)
    then have "sublist [CR, LF] (dropWhile (\<lambda>x. x = LF) s)" using 2(1) True by simp
    then show ?thesis by (rule sublist_dropWhile_Cons)
  next
    case False
    then have "spec_collapse (c # s) = c # spec_collapse s" by auto
    then have "prefix [CR, LF] (c # spec_collapse s) \<or> sublist [CR, LF] (spec_collapse s)"
      using 2(3) by (simp only: sublist_Cons_right)
    then show ?thesis
    proof
      assume "prefix [CR, LF] (c # spec_collapse s)"
      then have "c = CR" and "prefix [LF] (spec_collapse s)" by auto
      then have "prefix [CR, LF] (c # s)" by (simp add: spec_collapse_hd)
      then show ?thesis by (rule prefix_imp_sublist)
    next
      assume "sublist [CR, LF] (spec_collapse s)"
      then have "sublist [CR, LF] s" using 2(2) False by simp
      then show ?thesis by (simp add: sublist_Cons_right)
    qed
  qed
qed

subsection \<open>Texts on which the first four statements do nothing\<close>

lemma re_sub_none: "\<not> re_search p s \<Longrightarrow> re_sub p repl s = s"
  by (induction s) (auto split: option.splits)

lemma re_split_none: "\<not> re_search p s \<Longrightarrow> re_split p s = [s]"
  by (induction s) (auto split: option.splits)

lemma spec_colophon_none: "\<not> sublist marker s \<Longrightarrow> spec_colophon s = s"
  by (induction s) (auto simp: sublist_Cons_right)

lemma marker_free_steps:
  assumes "marker_free x" and "IDEOSP \<notin> set x"
  shows "strip_ruby_and_notes x = Inr (str_strip (spec_collapse (spec_crlf x)))"
proof -
  have f: "front_matter x = Inr x"
    using assms(1) by (simp add: marker_free_def front_matter_def re_split_none)
  have c: "colophon x = Inr x"
    using assms(1) by (simp add: marker_free_def colophon_spec spec_colophon_none)
  have r: "strip_ruby x = x" and n: "strip_notes x = x"
    using assms(1) by (simp_all add: marker_free_def strip_ruby_def strip_notes_def re_sub_none)
  have i: "strip_ideographic x = x"
    using assms(2) by (auto simp: strip_ideographic_spec filter_id_conv)
  show ?thesis
    by (simp add: strip_ruby_and_notes_def f c finish_def r n i unify_newlines_spec
        squeeze_blank_lines_spec)
qed

lemma re_search_iff: "re_search p s \<longleftrightarrow> (\<exists>a u. s = a @ u \<and> re_match p u \<noteq> None)"
proof (induction s)
  case Nil
  then show ?case by (auto split: option.splits)
next
  case (Cons c s)
  show ?case
  proof (cases "re_match p (c # s)")
    case (Some r)
    then have "c # s = [] @ (c # s) \<and> re_match p (c # s) \<noteq> None" by simp
    then have "\<exists>a u. c # s = a @ u \<and> re_match p u \<noteq> None" by blast
    then show ?thesis using Some by simp
  next
    case None
    have "(\<exists>a u. c # s = a @ u \<and> re_match p u \<noteq> None)
        \<longleftrightarrow> (\<exists>a u. s = a @ u \<and> re_match p u \<noteq> None)"
    proof
      assume "\<exists>a u. c # s = a @ u \<and> re_match p u \<noteq> None"
      then obtain a u where au: "c # s = a @ u" "re_match p u \<noteq> None" by blast
      then have "a \<noteq> []" using None by (cases a) auto
      then obtain a' where "a = c # a'" "s = a' @ u" using au(1) by (cases a) auto
      then show "\<exists>a u. s = a @ u \<and> re_match p u \<noteq> None" using au(2) by blast
    next
      assume "\<exists>a u. s = a @ u \<and> re_match p u \<noteq> None"
      then obtain a u where "s = a @ u" "re_match p u \<noteq> None" by blast
      then have "c # s = (c # a) @ u \<and> re_match p u \<noteq> None" by simp
      then show "\<exists>a u. c # s = a @ u \<and> re_match p u \<noteq> None" by blast
    qed
    then show ?thesis using None Cons by simp
  qed
qed

lemma close_at_found:
  "close_at allowed cl u = Some r \<Longrightarrow> \<exists>v. u = v @ cl # r \<and> (\<forall>x\<in>set v. allowed x)"
proof (induction u)
  case Nil
  then show ?case by simp
next
  case (Cons c u)
  show ?case
  proof (cases "c = cl")
    case True
    then have "c # u = [] @ cl # r" using Cons.prems by simp
    then show ?thesis by (metis empty_iff list.set(1))
  next
    case False
    then have "allowed c" and "close_at allowed cl u = Some r"
      using Cons.prems by (auto split: if_splits)
    then obtain v where "u = v @ cl # r" "\<forall>x\<in>set v. allowed x" using Cons.IH by blast
    then have "c # u = (c # v) @ cl # r \<and> (\<forall>x\<in>set (c # v). allowed x)"
      using \<open>allowed c\<close> by simp
    then show ?thesis by blast
  qed
qed

lemma close_at_reach:
  "\<forall>x\<in>set v. allowed x \<Longrightarrow> close_at allowed cl (v @ cl # b) \<noteq> None"
  by (induction v) auto

lemma span_rest_iff:
  "span_rest (\<lambda>x. x \<noteq> LF) True cl u \<noteq> None
     \<longleftrightarrow> (\<exists>c b. c \<noteq> [] \<and> LF \<notin> set c \<and> u = c @ cl # b)"
proof
  assume "span_rest (\<lambda>x. x \<noteq> LF) True cl u \<noteq> None"
  then obtain r where r: "span_rest (\<lambda>x. x \<noteq> LF) True cl u = Some r" by auto
  then obtain d u' where u: "u = d # u'" "d \<noteq> LF" "close_at (\<lambda>x. x \<noteq> LF) cl u' = Some r"
    by (auto simp: span_rest_def split: list.splits if_splits)
  then obtain v where v: "u' = v @ cl # r" "\<forall>x\<in>set v. x \<noteq> LF"
    using close_at_found by blast
  then have "d # v \<noteq> [] \<and> LF \<notin> set (d # v) \<and> u = (d # v) @ cl # r"
    using u by auto
  then show "\<exists>c b. c \<noteq> [] \<and> LF \<notin> set c \<and> u = c @ cl # b" by blast
next
  assume "\<exists>c b. c \<noteq> [] \<and> LF \<notin> set c \<and> u = c @ cl # b"
  then obtain c b where c: "c \<noteq> []" "LF \<notin> set c" "u = c @ cl # b" by blast
  then obtain d v where d: "c = d # v" by (cases c) auto
  then have "\<forall>x\<in>set v. x \<noteq> LF" and "d \<noteq> LF" using c(2) by auto
  then have "close_at (\<lambda>x. x \<noteq> LF) cl (v @ cl # b) \<noteq> None"
    using close_at_reach [of v "\<lambda>x. x \<noteq> LF" cl b] by simp
  then show "span_rest (\<lambda>x. x \<noteq> LF) True cl u \<noteq> None"
    using c(3) d \<open>d \<noteq> LF\<close> by (simp add: span_rest_def)
qed

lemma re_search_ruby:
  "re_search ruby_pat s
     \<longleftrightarrow> (\<exists>c. c \<noteq> [] \<and> LF \<notin> set c \<and> sublist (RUBY_OPEN # c @ [RUBY_CLOSE]) s)"
proof
  assume "re_search ruby_pat s"
  then obtain a u where au: "s = a @ u" "re_match ruby_pat u \<noteq> None"
    by (auto simp: re_search_iff)
  then obtain u' where u: "u = RUBY_OPEN # u'"
    and sp: "span_rest (\<lambda>x. x \<noteq> LF) True RUBY_CLOSE u' \<noteq> None"
    by (cases u) (auto simp: re_match_ruby split: if_splits)
  have "\<exists>c b. c \<noteq> [] \<and> LF \<notin> set c \<and> u' = c @ RUBY_CLOSE # b"
    using sp by (simp only: span_rest_iff)
  then obtain c b where c: "c \<noteq> []" "LF \<notin> set c" "u' = c @ RUBY_CLOSE # b"
    by blast
  then have "s = a @ (RUBY_OPEN # c @ [RUBY_CLOSE]) @ b" using au(1) u by simp
  then have "sublist (RUBY_OPEN # c @ [RUBY_CLOSE]) s" unfolding sublist_def by blast
  then show "\<exists>c. c \<noteq> [] \<and> LF \<notin> set c \<and> sublist (RUBY_OPEN # c @ [RUBY_CLOSE]) s"
    using c by blast
next
  assume "\<exists>c. c \<noteq> [] \<and> LF \<notin> set c \<and> sublist (RUBY_OPEN # c @ [RUBY_CLOSE]) s"
  then obtain c a b where c: "c \<noteq> []" "LF \<notin> set c"
    and s: "s = a @ (RUBY_OPEN # c @ [RUBY_CLOSE]) @ b"
    by (auto simp: sublist_def)
  have "span_rest (\<lambda>x. x \<noteq> LF) True RUBY_CLOSE (c @ RUBY_CLOSE # b) \<noteq> None"
    unfolding span_rest_iff using c by blast
  then have "re_match ruby_pat (RUBY_OPEN # c @ RUBY_CLOSE # b) \<noteq> None"
    by (simp add: re_match_ruby)
  moreover have "s = a @ (RUBY_OPEN # c @ RUBY_CLOSE # b)" using s by simp
  ultimately show "re_search ruby_pat s" unfolding re_search_iff by blast
qed

lemma re_search_note:
  "re_search note_pat s
     \<longleftrightarrow> (\<exists>c. c \<noteq> [] \<and> LF \<notin> set c \<and> sublist (NOTE_OPEN # NOTE_HASH # c @ [NOTE_CLOSE]) s)"
proof
  assume "re_search note_pat s"
  then obtain a u where au: "s = a @ u" "re_match note_pat u \<noteq> None"
    by (auto simp: re_search_iff)
  then have p: "prefix [NOTE_OPEN, NOTE_HASH] u"
    and sp: "span_rest (\<lambda>x. x \<noteq> LF) True NOTE_CLOSE (drop 2 u) \<noteq> None"
    by (auto simp: re_match_note split: if_splits)
  have "\<exists>c b. c \<noteq> [] \<and> LF \<notin> set c \<and> drop 2 u = c @ NOTE_CLOSE # b"
    using sp by (simp only: span_rest_iff)
  then obtain c b where c: "c \<noteq> []" "LF \<notin> set c" "drop 2 u = c @ NOTE_CLOSE # b"
    by blast
  have "u = [NOTE_OPEN, NOTE_HASH] @ drop 2 u" using p by (auto simp: prefix_def)
  then have "s = a @ (NOTE_OPEN # NOTE_HASH # c @ [NOTE_CLOSE]) @ b" using au(1) c(3) by simp
  then have "sublist (NOTE_OPEN # NOTE_HASH # c @ [NOTE_CLOSE]) s" unfolding sublist_def by blast
  then show "\<exists>c. c \<noteq> [] \<and> LF \<notin> set c \<and> sublist (NOTE_OPEN # NOTE_HASH # c @ [NOTE_CLOSE]) s"
    using c by blast
next
  assume "\<exists>c. c \<noteq> [] \<and> LF \<notin> set c \<and> sublist (NOTE_OPEN # NOTE_HASH # c @ [NOTE_CLOSE]) s"
  then obtain c a b where c: "c \<noteq> []" "LF \<notin> set c"
    and s: "s = a @ (NOTE_OPEN # NOTE_HASH # c @ [NOTE_CLOSE]) @ b"
    by (auto simp: sublist_def)
  have "span_rest (\<lambda>x. x \<noteq> LF) True NOTE_CLOSE (c @ NOTE_CLOSE # b) \<noteq> None"
    unfolding span_rest_iff using c by blast
  then have "re_match note_pat (NOTE_OPEN # NOTE_HASH # c @ NOTE_CLOSE # b) \<noteq> None"
    by (simp add: re_match_note)
  moreover have "s = a @ (NOTE_OPEN # NOTE_HASH # c @ NOTE_CLOSE # b)" using s by simp
  ultimately show "re_search note_pat s" unfolding re_search_iff by blast
qed

lemma re_search_hyphens: "re_search hyphens_pat s \<longleftrightarrow> sublist (replicate 5 HYPHEN) s"
proof
  assume "re_search hyphens_pat s"
  then obtain a u where au: "s = a @ u" "5 \<le> length (takeWhile (\<lambda>x. x = HYPHEN) u)"
    by (auto simp: re_search_iff hyphens_pat_def re_match_at_least split: if_splits)
  define k where "k = length (takeWhile (\<lambda>x. x = HYPHEN) u)"
  have "takeWhile (\<lambda>x. x = HYPHEN) u = replicate k HYPHEN"
    unfolding k_def by (rule replicate_length_same [symmetric]) (auto dest: set_takeWhileD)
  moreover have "replicate k HYPHEN = replicate 5 HYPHEN @ replicate (k - 5) HYPHEN"
    using au(2) unfolding k_def [symmetric] by (simp add: replicate_add [symmetric])
  ultimately have "u = replicate 5 HYPHEN @ (replicate (k - 5) HYPHEN
      @ dropWhile (\<lambda>x. x = HYPHEN) u)"
    by (metis append_assoc takeWhile_dropWhile_id)
  then have "s = a @ replicate 5 HYPHEN @ (replicate (k - 5) HYPHEN
      @ dropWhile (\<lambda>x. x = HYPHEN) u)" using au(1) by simp
  then show "sublist (replicate 5 HYPHEN) s" unfolding sublist_def by blast
next
  assume "sublist (replicate 5 HYPHEN) s"
  then obtain a b where s: "s = a @ replicate 5 HYPHEN @ b" by (auto simp: sublist_def)
  have "5 \<le> length (takeWhile (\<lambda>x. x = HYPHEN) (replicate 5 HYPHEN @ b))"
    by (simp add: takeWhile_replicate_append)
  then have "re_match hyphens_pat (replicate 5 HYPHEN @ b) \<noteq> None"
    by (simp add: hyphens_pat_def re_match_at_least)
  then show "re_search hyphens_pat s" unfolding re_search_iff using s by blast
qed

lemma spec_crlf_prefix: "LF \<notin> set m \<Longrightarrow> prefix m (spec_crlf t) \<Longrightarrow> prefix m t"
proof (induction t arbitrary: m rule: spec_crlf.induct)
  case (1 c d s)
  show ?case
  proof (cases "c = CR \<and> d = LF")
    case True
    then have "prefix m (LF # spec_crlf s)" using 1(4) by simp
    then have "m = []" using 1(3) by (cases m) auto
    then show ?thesis by simp
  next
    case False
    then have p: "prefix m (c # spec_crlf (d # s))" using 1(4) by auto
    show ?thesis
    proof (cases m)
      case Nil
      then show ?thesis by simp
    next
      case (Cons e m')
      then have "e = c" and "prefix m' (spec_crlf (d # s))" and "LF \<notin> set m'"
        using p 1(3) by auto
      then have "prefix m' (d # s)" using 1(2) False by simp
      then show ?thesis using Cons \<open>e = c\<close> by simp
    qed
  qed
qed simp_all

lemma spec_crlf_sublist: "LF \<notin> set m \<Longrightarrow> sublist m (spec_crlf t) \<Longrightarrow> sublist m t"
proof (induction t rule: spec_crlf.induct)
  case (1 c d s)
  show ?case
  proof (cases "c = CR \<and> d = LF")
    case True
    then have "prefix m (LF # spec_crlf s) \<or> sublist m (spec_crlf s)"
      using 1(4) by (simp add: sublist_Cons_right)
    then show ?thesis
    proof
      assume "prefix m (LF # spec_crlf s)"
      then have "m = []" using 1(3) by (cases m) auto
      then show ?thesis by simp
    next
      assume "sublist m (spec_crlf s)"
      then have "sublist m s" using 1(1) True 1(3) by simp
      then show ?thesis by (simp add: sublist_Cons_right)
    qed
  next
    case False
    then have eq: "spec_crlf (c # d # s) = c # spec_crlf (d # s)" by auto
    then have "prefix m (spec_crlf (c # d # s)) \<or> sublist m (spec_crlf (d # s))"
      using 1(4) by (simp only: sublist_Cons_right)
    then show ?thesis
    proof
      assume "prefix m (spec_crlf (c # d # s))"
      then have "prefix m (c # d # s)" using 1(3) by (rule spec_crlf_prefix [rotated])
      then show ?thesis by (rule prefix_imp_sublist)
    next
      assume "sublist m (spec_crlf (d # s))"
      then have "sublist m (d # s)" using 1(2) False 1(3) by simp
      then show ?thesis by (simp add: sublist_Cons_right)
    qed
  qed
qed simp_all

lemma spec_collapse_prefix: "LF \<notin> set m \<Longrightarrow> prefix m (spec_collapse t) \<Longrightarrow> prefix m t"
proof (induction t arbitrary: m rule: spec_collapse.induct)
  case 1
  then show ?case by simp
next
  case (2 c s)
  show ?case
  proof (cases "c = LF \<and> 2 \<le> length (takeWhile (\<lambda>x. x = LF) s)")
    case True
    then have "prefix m (LF # LF # spec_collapse (dropWhile (\<lambda>x. x = LF) s))"
      using 2(4) by simp
    then have "m = []" using 2(3) by (cases m) auto
    then show ?thesis by simp
  next
    case False
    then have p: "prefix m (c # spec_collapse s)" using 2(4) by auto
    show ?thesis
    proof (cases m)
      case Nil
      then show ?thesis by simp
    next
      case (Cons e m')
      then have "e = c" and "prefix m' (spec_collapse s)" and "LF \<notin> set m'"
        using p 2(3) by auto
      then have "prefix m' s" using 2(2) False by simp
      then show ?thesis using Cons \<open>e = c\<close> by simp
    qed
  qed
qed

lemma spec_collapse_sublist: "LF \<notin> set m \<Longrightarrow> sublist m (spec_collapse t) \<Longrightarrow> sublist m t"
proof (induction t rule: spec_collapse.induct)
  case 1
  then show ?case by simp
next
  case (2 c s)
  show ?case
  proof (cases "m = []")
    case True
    then show ?thesis by simp
  next
    case mne: False
    then have nohd: "\<not> prefix m (LF # r)" for r using 2(3) by (cases m) auto
    show ?thesis
    proof (cases "c = LF \<and> 2 \<le> length (takeWhile (\<lambda>x. x = LF) s)")
      case True
      then have "sublist m (LF # LF # spec_collapse (dropWhile (\<lambda>x. x = LF) s))"
        using 2(4) by simp
      then have "sublist m (spec_collapse (dropWhile (\<lambda>x. x = LF) s))"
        using nohd by (simp add: sublist_Cons_right)
      then have "sublist m (dropWhile (\<lambda>x. x = LF) s)" using 2(1) True 2(3) by simp
      then show ?thesis by (rule sublist_dropWhile_Cons)
    next
      case False
      then have eq: "spec_collapse (c # s) = c # spec_collapse s" by auto
      then have "prefix m (spec_collapse (c # s)) \<or> sublist m (spec_collapse s)"
        using 2(4) by (simp only: sublist_Cons_right)
      then show ?thesis
      proof
        assume "prefix m (spec_collapse (c # s))"
        then have "prefix m (c # s)" using 2(3) by (rule spec_collapse_prefix [rotated])
        then show ?thesis by (rule prefix_imp_sublist)
      next
        assume "sublist m (spec_collapse s)"
        then have "sublist m s" using 2(2) False 2(3) by simp
        then show ?thesis by (simp add: sublist_Cons_right)
      qed
    qed
  qed
qed

lemma cleaned_sublist:
  assumes "LF \<notin> set m" and "sublist m (str_strip (spec_collapse (spec_crlf x)))"
  shows "sublist m x"
proof -
  have "sublist m (spec_collapse (spec_crlf x))"
    using assms(2) sublist_str_strip by (rule sublist_order.order_trans)
  then have "sublist m (spec_crlf x)" using assms(1) by (rule spec_collapse_sublist [rotated])
  then show ?thesis using assms(1) by (rule spec_crlf_sublist [rotated])
qed

lemma cleaned_marker_free:
  assumes "marker_free x"
  shows "marker_free (str_strip (spec_collapse (spec_crlf x)))"
proof -
  define y where "y = str_strip (spec_collapse (spec_crlf x))"
  have k: "sublist m x" if "LF \<notin> set m" "sublist m y" for m
    using that cleaned_sublist unfolding y_def by blast
  have h: "\<not> re_search hyphens_pat y"
  proof
    assume "re_search hyphens_pat y"
    then have "sublist (replicate 5 HYPHEN) y" by (simp add: re_search_hyphens)
    moreover have "LF \<notin> set (replicate 5 HYPHEN)" by (simp add: LF_def HYPHEN_def)
    ultimately have "sublist (replicate 5 HYPHEN) x" using k by blast
    then show False using assms by (simp add: marker_free_def re_search_hyphens)
  qed
  have m: "\<not> sublist marker y"
  proof
    assume "sublist marker y"
    moreover have "LF \<notin> set marker" by (simp add: LF_def marker_def)
    ultimately have "sublist marker x" using k by blast
    then show False using assms by (simp add: marker_free_def)
  qed
  have r: "\<not> re_search ruby_pat y"
  proof
    assume "re_search ruby_pat y"
    then obtain c where c: "c \<noteq> []" "LF \<notin> set c" "sublist (RUBY_OPEN # c @ [RUBY_CLOSE]) y"
      by (auto simp: re_search_ruby)
    then have "LF \<notin> set (RUBY_OPEN # c @ [RUBY_CLOSE])"
      by (simp add: LF_def RUBY_OPEN_def RUBY_CLOSE_def)
    then have "sublist (RUBY_OPEN # c @ [RUBY_CLOSE]) x" using c(3) k by blast
    then have "re_search ruby_pat x" using c(1,2) unfolding re_search_ruby by blast
    then show False using assms by (simp add: marker_free_def)
  qed
  have n: "\<not> re_search note_pat y"
  proof
    assume "re_search note_pat y"
    then obtain c where c: "c \<noteq> []" "LF \<notin> set c"
      "sublist (NOTE_OPEN # NOTE_HASH # c @ [NOTE_CLOSE]) y"
      by (auto simp: re_search_note)
    then have "LF \<notin> set (NOTE_OPEN # NOTE_HASH # c @ [NOTE_CLOSE])"
      by (simp add: LF_def NOTE_OPEN_def NOTE_HASH_def NOTE_CLOSE_def)
    then have "sublist (NOTE_OPEN # NOTE_HASH # c @ [NOTE_CLOSE]) x" using c(3) k by blast
    then have "re_search note_pat x" using c(1,2) unfolding re_search_note by blast
    then show False using assms by (simp add: marker_free_def)
  qed
  show ?thesis using h m r n unfolding y_def [symmetric] by (simp add: marker_free_def)
qed

lemma spec_crlf_id: "\<not> sublist [CR, LF] s \<Longrightarrow> spec_crlf s = s"
  by (induction s rule: spec_crlf.induct) (auto simp: sublist_Cons_right)

lemma spec_collapse_id: "\<not> sublist [LF, LF, LF] s \<Longrightarrow> spec_collapse s = s"
proof (induction s rule: spec_collapse.induct)
  case 1
  then show ?case by simp
next
  case (2 c s)
  have no: "\<not> (c = LF \<and> 2 \<le> length (takeWhile (\<lambda>x. x = LF) s))"
  proof
    assume a: "c = LF \<and> 2 \<le> length (takeWhile (\<lambda>x. x = LF) s)"
    then obtain d e s' where "s = d # e # s'" "d = LF" "e = LF"
      by (cases s; cases "tl s") (auto split: if_splits)
    then have "prefix [LF, LF, LF] (c # s)" using a by simp
    then show False using 2(3) by (auto simp: sublist_Cons_right)
  qed
  moreover have "\<not> sublist [LF, LF, LF] s" using 2(3) by (auto simp: sublist_Cons_right)
  ultimately show ?case using 2(2) by auto
qed

lemma str_strip_idem: "str_strip (str_strip s) = str_strip s"
proof -
  have id: "dropWhile P z = z" if "takeWhile P z = []" for P :: "nat \<Rightarrow> bool" and z
    using that by (metis append_Nil takeWhile_dropWhile_id)
  have e: "takeWhile py_isspace (str_strip s) = []"
    "takeWhile py_isspace (rev (str_strip s)) = []"
    using str_strip_ends [of s] by simp_all
  have "str_strip (str_strip s)
      = rev (dropWhile py_isspace (rev (dropWhile py_isspace (str_strip s))))"
    by (simp add: str_strip_def)
  also have "\<dots> = rev (dropWhile py_isspace (rev (str_strip s)))" by (simp only: id [OF e(1)])
  also have "\<dots> = rev (rev (str_strip s))" by (simp only: id [OF e(2)])
  finally show ?thesis by simp
qed

section \<open>The normalizer and the eight steps\<close>

text \<open>
  C1, as the specification words it, fails: between the brackets the pattern \<open>.+?\<close> of
  the source accepts one or more characters other than the line feed, so a bracket pair
  around a line feed stays in the text, where the eight steps as worded remove it.
\<close>

theorem normalizer_spans_counterexample:
  "strip_ruby_and_notes [RUBY_OPEN, 97, LF, 98, RUBY_CLOSE]
     = Inr [RUBY_OPEN, 97, LF, 98, RUBY_CLOSE]
   \<and> spec_normalize [RUBY_OPEN, 97, LF, 98, RUBY_CLOSE] = []
   \<and> strip_ruby_and_notes [RUBY_OPEN, 97, LF, 98, RUBY_CLOSE]
       \<noteq> Inr (spec_normalize [RUBY_OPEN, 97, LF, 98, RUBY_CLOSE])"
  by (simp add: source_defs spec_normalize_def eight_steps_def spec_trim_def spec_front_def
      span_rest_def)

text \<open>
  C1, amended: for every text the normalizer returns the composition of the eight steps in
  their order, where a span of steps 3 and 4 is an opening bracket, one or more characters
  other than the line feed, and the first closing bracket after the first of them.
\<close>

theorem normalizer_is_line_steps: "strip_ruby_and_notes s = Inr (line_normalize s)"
  by (simp add: strip_ruby_and_notes_steps finish_spec line_normalize_def eight_steps_def)

section \<open>The normalizer never raises\<close>

text \<open>
  C2: for every text the normalizer returns a text, none of its index and split
  operations raises; the empty text gives the empty text.
\<close>

theorem strip_ruby_and_notes_total:
  "(\<exists>y. strip_ruby_and_notes s = Inr y) \<and> strip_ruby_and_notes [] = Inr []"
proof
  show "\<exists>y. strip_ruby_and_notes s = Inr y"
    by (simp add: strip_ruby_and_notes_steps)
  show "strip_ruby_and_notes [] = Inr []"
    by (simp add: source_defs)
qed

section \<open>The two copies of the text cleaner\<close>

text \<open>
  C9: the text cleaner of \<open>app.py\<close> returns, for every text, what the text cleaner of
  \<open>aozora.py\<close> returns.
\<close>

theorem app_copy_equal: "app_strip_ruby_and_notes s = strip_ruby_and_notes s"
  unfolding app_strip_ruby_and_notes_def strip_ruby_and_notes_def front_matter_def
    colophon_def finish_def strip_ruby_def strip_notes_def strip_ideographic_def
    unify_newlines_def squeeze_blank_lines_def hyphens_pat_def ruby_pat_def note_pat_def
    blank_pat_def marker_def Let_def
  by (simp split: sum.splits)

section \<open>Front matter\<close>

text \<open>
  C5: a text with fewer than two rules of five or more hyphens splits into fewer than three
  segments, and the front-matter step returns it unchanged.
\<close>

theorem few_rules_keep_text:
  "hyphen_rules s < 2 \<Longrightarrow> length (re_split hyphens_pat s) < 3 \<and> front_matter s = Inr s"
  by (simp add: front_matter_def re_split_hyphens length_segments hyphen_rules_def Let_def)

theorem few_rules_keep_text_witness:
  "hyphen_rules [97, 45, 45, 45, 45, 45, 45, 98, 45, 45, 45, 45, 99] < 2
   \<and> length (re_split hyphens_pat [97, 45, 45, 45, 45, 45, 45, 98, 45, 45, 45, 45, 99]) < 3
   \<and> front_matter [97, 45, 45, 45, 45, 45, 45, 98, 45, 45, 45, 45, 99]
       = Inr [97, 45, 45, 45, 45, 45, 45, 98, 45, 45, 45, 45, 99]"
proof -
  have h: "hyphen_rules [97, 45, 45, 45, 45, 45, 45, 98, 45, 45, 45, 45, 99] < 2"
    by (simp add: hyphen_rules_def HYPHEN_def)
  show ?thesis using h few_rules_keep_text [OF h] by simp
qed

section \<open>Colophon\<close>



section \<open>The extractor's failures\<close>

text \<open>
  C8, as stated, fails in three ways.  Only \<open>BadZipFile\<close> is caught: when \<open>zipfile\<close> raises
  \<open>zlib.error\<close> for an archive whose compressed stream is corrupt, that exception leaves
  the extractor as it is, not as the cannot-extract error.  A listing whose only \<open>.txt\<close>
  name starts with a dot has a file with the \<open>.txt\<close> suffix, yet \<open>*.txt\<close> does not match
  it and the extractor raises the no-text-found error.  And when the directory path holds
  a magic character, glob reads it as a pattern: if that pattern matches no directory, a
  listing with a \<open>.txt\<close> name gives the no-text-found error too.
\<close>

theorem extract_counterexample:
  "extract_text_path (Inl ZlibError) [] [0x2F, 0x74] = Inl ZlibError
   \<and> suffix dot_txt [0x2E, 0x61, 0x2E, 0x74, 0x78, 0x74]
   \<and> extract_text_path (Inr [[0x2E, 0x61, 0x2E, 0x74, 0x78, 0x74]]) [] [0x2F, 0x74]
       = Inl (AozoraProcessingError no_text_message)
   \<and> suffix dot_txt [0x61, 0x2E, 0x74, 0x78, 0x74]
   \<and> extract_text_path (Inr [[0x61, 0x2E, 0x74, 0x78, 0x74]]) [] [0x2F, 0x64, 0x5B, 0x31, 0x5D]
       = Inl (AozoraProcessingError no_text_message)"
  by (simp add: extract_text_path_def glob_star_txt_def glob1_star_txt_def glob_dirname_def
      os_path_join_def os_path_split_def glob_has_magic_def glob_hidden_def dot_txt_def
      star_txt_def DOT_def SLASH_def STAR_def QUESTION_def LBRACKET_def suffix_to_prefix)

text \<open>
  C8, amended: when \<open>zipfile\<close> raises \<open>BadZipFile\<close> the extractor raises the
  cannot-extract error, and any other exception of \<open>zipfile\<close> leaves it unchanged.  For
  a valid archive and a directory path without the magic characters of glob: a listing in
  which no name ends in \<open>.txt\<close> without starting with a dot gives the no-text-found
  error; otherwise the extractor returns the directory joined with the first such name of
  the listing.
\<close>

theorem extract_classified:
  "extract_text_path (Inl BadZipFile) matched d
     = Inl (AozoraProcessingError cannot_extract_message)
   \<and> (e \<noteq> BadZipFile \<longrightarrow> extract_text_path (Inl e) matched d = Inl e)
   \<and> (\<not> glob_has_magic d \<and> find visible_txt listing = None \<longrightarrow>
        extract_text_path (Inr listing) matched d = Inl (AozoraProcessingError no_text_message))
   \<and> (\<not> glob_has_magic d \<and> find visible_txt listing' = Some name \<longrightarrow>
        extract_text_path (Inr listing') matched d = Inr (os_path_join (glob_dirname d) name))
   \<and> (d \<noteq> [] \<and> last d \<noteq> SLASH \<longrightarrow> glob_dirname d = d)"
proof (intro conjI impI)
  show "extract_text_path (Inl BadZipFile) matched d
      = Inl (AozoraProcessingError cannot_extract_message)"
    by (simp add: extract_text_path_def)
next
  assume "e \<noteq> BadZipFile"
  then show "extract_text_path (Inl e) matched d = Inl e"
    by (simp add: extract_text_path_def)
next
  assume "\<not> glob_has_magic d \<and> find visible_txt listing = None"
  then have "\<not> glob_has_magic d" and "filter visible_txt listing = []"
    by (simp_all add: filter_empty_conv find_None_iff)
  then show "extract_text_path (Inr listing) matched d
      = Inl (AozoraProcessingError no_text_message)"
    by (simp add: extract_text_path_def glob_star_txt_plain)
next
  assume "\<not> glob_has_magic d \<and> find visible_txt listing' = Some name"
  then have plain: "\<not> glob_has_magic d" and "find visible_txt listing' = Some name"
    by simp_all
  then obtain rest where "filter visible_txt listing' = name # rest"
    using find_filter [of visible_txt listing' name] by auto
  then show "extract_text_path (Inr listing') matched d
      = Inr (os_path_join (glob_dirname d) name)"
    using plain by (simp add: extract_text_path_def glob_star_txt_plain py_index_def)
next
  assume "d \<noteq> [] \<and> last d \<noteq> SLASH"
  then show "glob_dirname d = d" by (simp add: glob_dirname_plain)
qed

theorem extract_classified_witness:
  "ZlibError \<noteq> BadZipFile
   \<and> extract_text_path (Inl ZlibError) [] [0x2F, 0x74] = Inl ZlibError
   \<and> \<not> glob_has_magic [0x2F, 0x74]
   \<and> last [0x2F, 0x74] \<noteq> SLASH
   \<and> glob_dirname [0x2F, 0x74] = [0x2F, 0x74]
   \<and> find visible_txt [[0x61, 0x2E, 0x68, 0x74, 0x6D]] = None
   \<and> extract_text_path (Inr [[0x61, 0x2E, 0x68, 0x74, 0x6D]]) [] [0x2F, 0x74]
       = Inl (AozoraProcessingError no_text_message)
   \<and> find visible_txt [[0x2E, 0x62, 0x2E, 0x74, 0x78, 0x74], [0x61, 0x2E, 0x74, 0x78, 0x74]]
       = Some [0x61, 0x2E, 0x74, 0x78, 0x74]
   \<and> extract_text_path (Inr [[0x2E, 0x62, 0x2E, 0x74, 0x78, 0x74], [0x61, 0x2E, 0x74, 0x78, 0x74]])
         [] [0x2F, 0x74]
       = Inr [0x2F, 0x74, 0x2F, 0x61, 0x2E, 0x74, 0x78, 0x74]"
proof -
  have h0: "ZlibError \<noteq> BadZipFile" by simp
  have m: "\<not> glob_has_magic [0x2F, 0x74]"
    by (simp add: glob_has_magic_def STAR_def QUESTION_def LBRACKET_def)
  have h1: "find visible_txt [[0x61, 0x2E, 0x68, 0x74, 0x6D]] = None"
    by (simp add: visible_txt_def dot_txt_def suffix_to_prefix)
  have h2: "find visible_txt [[0x2E, 0x62, 0x2E, 0x74, 0x78, 0x74], [0x61, 0x2E, 0x74, 0x78, 0x74]]
       = Some [0x61, 0x2E, 0x74, 0x78, 0x74]"
    by (simp add: visible_txt_def dot_txt_def glob_hidden_def DOT_def suffix_to_prefix)
  have l: "[0x2F, 0x74] \<noteq> [] \<and> last [0x2F, 0x74] \<noteq> SLASH"
    by (simp add: SLASH_def)
  have j: "os_path_join [0x2F, 0x74] [0x61, 0x2E, 0x74, 0x78, 0x74]
       = [0x2F, 0x74, 0x2F, 0x61, 0x2E, 0x74, 0x78, 0x74]"
    by (simp add: os_path_join_def SLASH_def suffix_to_prefix)
  show ?thesis
    using h0 m h1 h2 l j
      extract_classified [of "[]" "[0x2F, 0x74]" ZlibError "[[0x61, 0x2E, 0x68, 0x74, 0x6D]]"
        "[[0x2E, 0x62, 0x2E, 0x74, 0x78, 0x74], [0x61, 0x2E, 0x74, 0x78, 0x74]]"
        "[0x61, 0x2E, 0x74, 0x78, 0x74]"]
    by simp
qed

section \<open>Blank lines\<close>

text \<open>
  C6, as stated, fails: the final trim removes a run of line feeds at the start or at the
  end of the text, so three line feeds before the first letter leave no line feed at all.
\<close>

theorem leading_run_counterexample:
  "strip_ruby_and_notes [LF, LF, LF, 97] = Inr [97] \<and> \<not> sublist [LF, LF] [97]"
  by (simp add: source_defs sublist_Cons_right)

text \<open>
  C6, amended: when the text that reaches the blank-line statement is \<open>a\<close>, a run of three or
  more line feeds and \<open>b\<close>, where \<open>a\<close> does not end and \<open>b\<close> does not start with a line feed
  and each holds a character that is not whitespace, the normalizer's output has exactly
  two line feeds for the run: it is the cleaned \<open>a\<close>, not ending with a line feed, two line
  feeds, and the cleaned \<open>b\<close>, not starting with a line feed.
\<close>

theorem inner_run_becomes_two:
  assumes "3 \<le> n"
    and "last a \<noteq> LF" and "list_ex (\<lambda>c. \<not> py_isspace c) a"
    and "hd b \<noteq> LF" and "list_ex (\<lambda>c. \<not> py_isspace c) b"
    and "front_matter x = Inr t1" and "colophon t1 = Inr t2"
    and "unify_newlines (strip_ideographic (strip_notes (strip_ruby t2))) = a @ replicate n LF @ b"
  shows "strip_ruby_and_notes x
           = Inr (dropWhile py_isspace (squeeze_blank_lines a) @ [LF, LF]
                  @ rev (dropWhile py_isspace (rev (squeeze_blank_lines b))))
         \<and> last (dropWhile py_isspace (squeeze_blank_lines a)) \<noteq> LF
         \<and> hd (rev (dropWhile py_isspace (rev (squeeze_blank_lines b)))) \<noteq> LF"
proof -
  obtain ca where ca: "ca \<in> set a" "\<not> py_isspace ca" using assms(3) by (auto simp: list_ex_iff)
  obtain cb where cb: "cb \<in> set b" "\<not> py_isspace cb" using assms(5) by (auto simp: list_ex_iff)
  have ane: "a \<noteq> []" and bne: "b \<noteq> []" using ca cb by auto
  have bp: "\<not> prefix [LF] b" using assms(4) bne by (cases b) auto
  define A where "A = spec_collapse a"
  define B where "B = spec_collapse b"
  have setA: "set A = set a" and setB: "set B = set b"
    unfolding A_def B_def by (simp_all add: spec_collapse_set)
  have exA: "list_ex (\<lambda>c. \<not> py_isspace c) A" and exB: "list_ex (\<lambda>c. \<not> py_isspace c) B"
    using ca cb setA setB by (auto simp: list_ex_iff)
  have "spec_collapse (a @ replicate n LF @ b) = A @ [LF, LF] @ B"
    using assms(1,2) ane bp by (simp add: spec_collapse_append spec_collapse_run A_def B_def)
  then have out: "finish t2
      = dropWhile py_isspace A @ [LF, LF] @ rev (dropWhile py_isspace (rev B))"
    using assms(8) strip_around [OF exA exB, of "[LF, LF]"]
    by (simp add: finish_def squeeze_blank_lines_spec str_strip_def)
  have lastA: "A \<noteq> [] \<and> last A = last a"
    unfolding A_def using ane by (rule spec_collapse_last)
  have "dropWhile py_isspace A \<noteq> []" using exA by (auto simp: list_ex_iff)
  moreover have "A = takeWhile py_isspace A @ dropWhile py_isspace A" by simp
  ultimately have "last (dropWhile py_isspace A) = last A" by (metis last_appendR)
  then have l: "last (dropWhile py_isspace A) \<noteq> LF" using lastA assms(2) by simp
  have hdB: "hd B = hd b"
    unfolding B_def using bne by (cases b) auto
  have "dropWhile py_isspace (rev B) \<noteq> []"
    using exB by (auto simp: list_ex_iff)
  moreover have "rev B = takeWhile py_isspace (rev B) @ dropWhile py_isspace (rev B)" by simp
  ultimately have "last (dropWhile py_isspace (rev B)) = last (rev B)" by (metis last_appendR)
  then have "hd (rev (dropWhile py_isspace (rev B))) = hd B"
    using \<open>dropWhile py_isspace (rev B) \<noteq> []\<close> by (simp add: hd_rev last_rev)
  then have h: "hd (rev (dropWhile py_isspace (rev B))) \<noteq> LF" using hdB assms(4) by simp
  show ?thesis
    using out l h assms(6,7)
    by (simp add: strip_ruby_and_notes_def squeeze_blank_lines_spec A_def B_def)
qed

theorem inner_run_becomes_two_witness:
  "front_matter [97, LF, LF, LF, LF, 98] = Inr [97, LF, LF, LF, LF, 98]
   \<and> colophon [97, LF, LF, LF, LF, 98] = Inr [97, LF, LF, LF, LF, 98]
   \<and> unify_newlines (strip_ideographic (strip_notes (strip_ruby [97, LF, LF, LF, LF, 98])))
       = [97] @ replicate 4 LF @ [98]
   \<and> strip_ruby_and_notes [97, LF, LF, LF, LF, 98] = Inr [97, LF, LF, 98]"
proof -
  have r: "replicate 4 LF = [LF, LF, LF, LF]" by (simp add: numeral_eq_Suc)
  have n: "(3::nat) \<le> 4" by simp
  have a1: "last [97] \<noteq> LF" by (simp add: LF_def)
  have a2: "list_ex (\<lambda>c. \<not> py_isspace c) [97]" by (simp add: py_isspace_def)
  have b1: "hd [98] \<noteq> LF" by (simp add: LF_def)
  have b2: "list_ex (\<lambda>c. \<not> py_isspace c) [98]" by (simp add: py_isspace_def)
  have f: "front_matter [97, LF, LF, LF, LF, 98] = Inr [97, LF, LF, LF, LF, 98]"
    by (simp add: source_defs)
  have c: "colophon [97, LF, LF, LF, LF, 98] = Inr [97, LF, LF, LF, LF, 98]"
    by (simp add: source_defs)
  have u: "unify_newlines (strip_ideographic (strip_notes (strip_ruby [97, LF, LF, LF, LF, 98])))
       = [97] @ replicate 4 LF @ [98]"
    unfolding r by (simp add: source_defs)
  have s: "dropWhile py_isspace (squeeze_blank_lines [97]) = [97]"
    "rev (dropWhile py_isspace (rev (squeeze_blank_lines [98]))) = [98]"
    by (simp_all add: source_defs)
  show ?thesis
    using f c u inner_run_becomes_two [OF n a1 a2 b1 b2 f c u] unfolding s by simp
qed

section \<open>Ruby and note spans\<close>

text \<open>
  C3, as stated, fails: the ruby statement runs first, so a note span whose content is a
  ruby span loses its content and is then no match for the note pattern, which needs at
  least one character between the brackets; the brackets of the note stay in the output.
\<close>

theorem note_around_ruby_counterexample:
  "render (Note (render (Ruby [97]))) = [NOTE_OPEN, NOTE_HASH, RUBY_OPEN, 97, RUBY_CLOSE, NOTE_CLOSE]
   \<and> strip_ruby_and_notes [NOTE_OPEN, NOTE_HASH, RUBY_OPEN, 97, RUBY_CLOSE, NOTE_CLOSE]
       = Inr [NOTE_OPEN, NOTE_HASH, NOTE_CLOSE]"
  by (simp add: source_defs)

text \<open>
  C3, amended: when the text that reaches the ruby statement is a sequence of plain pieces
  without opening brackets, ruby spans and note spans, each span with a content that is
  not empty, has no line feed and no closing bracket of its kind, and no note holding an
  opening ruby bracket, then the two statements remove every span with its brackets and
  keep the plain pieces as they are; the output is the later steps applied to the plain
  pieces.
\<close>

theorem spans_removed:
  assumes "list_all one_line_piece ps"
    and "front_matter x = Inr t1" and "colophon t1 = Inr (concat (map render ps))"
  shows "strip_notes (strip_ruby (concat (map render ps))) = concat (map outside ps)
         \<and> strip_ruby_and_notes x
             = Inr (str_strip (squeeze_blank_lines (unify_newlines (strip_ideographic
                 (concat (map outside ps))))))"
  using assms strip_spans_pieces [of ps]
  by (simp add: strip_ruby_and_notes_def finish_def)

theorem spans_removed_witness:
  "front_matter (concat (map render [Plain [66], Ruby [121], Plain [116], Note [110]]))
     = Inr (concat (map render [Plain [66], Ruby [121], Plain [116], Note [110]]))
   \<and> colophon (concat (map render [Plain [66], Ruby [121], Plain [116], Note [110]]))
     = Inr (concat (map render [Plain [66], Ruby [121], Plain [116], Note [110]]))
   \<and> strip_notes (strip_ruby (concat (map render [Plain [66], Ruby [121], Plain [116], Note [110]])))
     = [66, 116]
   \<and> strip_ruby_and_notes (concat (map render [Plain [66], Ruby [121], Plain [116], Note [110]]))
     = Inr [66, 116]"
proof -
  have w: "list_all one_line_piece [Plain [66], Ruby [121], Plain [116], Note [110]]"
    by (simp add: LF_def RUBY_OPEN_def RUBY_CLOSE_def NOTE_OPEN_def NOTE_CLOSE_def)
  have f: "front_matter (concat (map render [Plain [66], Ruby [121], Plain [116], Note [110]]))
     = Inr (concat (map render [Plain [66], Ruby [121], Plain [116], Note [110]]))"
    by (simp add: source_defs)
  have c: "colophon (concat (map render [Plain [66], Ruby [121], Plain [116], Note [110]]))
     = Inr (concat (map render [Plain [66], Ruby [121], Plain [116], Note [110]]))"
    by (simp add: source_defs)
  have t: "str_strip (squeeze_blank_lines (unify_newlines (strip_ideographic
      (concat (map outside [Plain [66], Ruby [121], Plain [116], Note [110]]))))) = [66, 116]"
    by (simp add: source_defs)
  show ?thesis
    using f c spans_removed [OF w f c] unfolding t by simp
qed

section \<open>What the output is free of\<close>

text \<open>
  C10, as stated, fails: \<open>replace\<close> makes one pass from left to right, so of a carriage
  return before a carriage return and a line feed the first carriage return stays, next to
  the line feed that replaces the pair: the output holds a carriage return and line feed.
\<close>

theorem crlf_left_counterexample:
  "strip_ruby_and_notes [97, CR, CR, LF, 98] = Inr [97, CR, LF, 98]
   \<and> sublist [CR, LF] [97, CR, LF, 98]"
  by (simp add: source_defs sublist_Cons_right)

text \<open>
  C10, amended: the normalizer's output holds no ideographic space and no run of three line
  feeds, and neither starts nor ends with whitespace; it holds no carriage return followed
  by a line feed when the text that reaches the line-ending statement holds no carriage
  return before a carriage return and line feed.
\<close>

theorem output_clean:
  assumes "front_matter x = Inr t1" and "colophon t1 = Inr t2"
    and "strip_ruby_and_notes x = Inr y"
  shows "IDEOSP \<notin> set y \<and> \<not> sublist [LF, LF, LF] y
         \<and> takeWhile py_isspace y = [] \<and> takeWhile py_isspace (rev y) = []
         \<and> (\<not> sublist [CR, CR, LF] (strip_ideographic (strip_notes (strip_ruby t2)))
              \<longrightarrow> \<not> sublist [CR, LF] y)"
proof -
  define t5 where "t5 = strip_ideographic (strip_notes (strip_ruby t2))"
  define t7 where "t7 = spec_collapse (spec_crlf t5)"
  have y: "y = str_strip t7"
    using assms
    by (simp add: strip_ruby_and_notes_def finish_def t5_def t7_def squeeze_blank_lines_spec
        unify_newlines_spec)
  have sub: "sublist y t7" unfolding y by (rule sublist_str_strip)
  have "IDEOSP \<notin> set t5" by (simp add: t5_def strip_ideographic_spec)
  then have "IDEOSP \<notin> set t7"
    using spec_crlf_set [of t5] by (auto simp: t7_def spec_collapse_set)
  then have a: "IDEOSP \<notin> set y" using set_mono_sublist [OF sub] by auto
  have "\<not> sublist [LF, LF, LF] t7" unfolding t7_def by (rule spec_collapse_no_three)
  then have b: "\<not> sublist [LF, LF, LF] y"
    using sub by (meson sublist_order.order_trans)
  have c: "takeWhile py_isspace y = [] \<and> takeWhile py_isspace (rev y) = []"
    unfolding y by (rule str_strip_ends)
  have d: "\<not> sublist [CR, LF] y" if "\<not> sublist [CR, CR, LF] t5"
  proof
    assume "sublist [CR, LF] y"
    then have "sublist [CR, LF] t7" using sub by (rule sublist_order.order_trans)
    then have "sublist [CR, LF] (spec_crlf t5)" unfolding t7_def by (rule spec_collapse_pair)
    then show False using spec_crlf_no_pair [OF that] by simp
  qed
  show ?thesis using a b c d by (simp add: t5_def)
qed

theorem output_clean_witness:
  "front_matter [IDEOSP, 72, CR, LF, 87, LF, LF, LF, LF, 69, 32]
     = Inr [IDEOSP, 72, CR, LF, 87, LF, LF, LF, LF, 69, 32]
   \<and> colophon [IDEOSP, 72, CR, LF, 87, LF, LF, LF, LF, 69, 32]
     = Inr [IDEOSP, 72, CR, LF, 87, LF, LF, LF, LF, 69, 32]
   \<and> strip_ruby_and_notes [IDEOSP, 72, CR, LF, 87, LF, LF, LF, LF, 69, 32]
     = Inr [72, LF, 87, LF, LF, 69]
   \<and> \<not> sublist [CR, CR, LF]
        (strip_ideographic (strip_notes (strip_ruby
          [IDEOSP, 72, CR, LF, 87, LF, LF, LF, LF, 69, 32])))
   \<and> IDEOSP \<notin> set [72, LF, 87, LF, LF, 69]
   \<and> \<not> sublist [LF, LF, LF] [72, LF, 87, LF, LF, 69]
   \<and> \<not> sublist [CR, LF] [72, LF, 87, LF, LF, 69]"
proof -
  have f: "front_matter [IDEOSP, 72, CR, LF, 87, LF, LF, LF, LF, 69, 32]
     = Inr [IDEOSP, 72, CR, LF, 87, LF, LF, LF, LF, 69, 32]"
    by (simp add: source_defs)
  have c: "colophon [IDEOSP, 72, CR, LF, 87, LF, LF, LF, LF, 69, 32]
     = Inr [IDEOSP, 72, CR, LF, 87, LF, LF, LF, LF, 69, 32]"
    by (simp add: source_defs)
  have n: "strip_ruby_and_notes [IDEOSP, 72, CR, LF, 87, LF, LF, LF, LF, 69, 32]
     = Inr [72, LF, 87, LF, LF, 69]"
    by (simp add: source_defs)
  have h: "\<not> sublist [CR, CR, LF]
        (strip_ideographic (strip_notes (strip_ruby
          [IDEOSP, 72, CR, LF, 87, LF, LF, LF, LF, 69, 32])))"
    by (simp add: source_defs sublist_Cons_right)
  show ?thesis
    using f c n h output_clean [OF f c n] by simp
qed

section \<open>Cleaning a cleaned text\<close>

text \<open>
  C7, as stated, fails: a text without any of the markers that steps 1 to 4 remove can
  still change twice.  A carriage return before a carriage return and line feed leaves a
  carriage return and line feed for the second pass; an ideographic space between the two
  characters that open a note is deleted by the first pass and the note by the second.
\<close>

theorem second_pass_counterexample:
  "marker_free [97, CR, CR, LF, 98]
   \<and> strip_ruby_and_notes [97, CR, CR, LF, 98] = Inr [97, CR, LF, 98]
   \<and> strip_ruby_and_notes [97, CR, LF, 98] = Inr [97, LF, 98]
   \<and> marker_free [NOTE_OPEN, IDEOSP, NOTE_HASH, 97, NOTE_CLOSE, 98]
   \<and> strip_ruby_and_notes [NOTE_OPEN, IDEOSP, NOTE_HASH, 97, NOTE_CLOSE, 98]
       = Inr [NOTE_OPEN, NOTE_HASH, 97, NOTE_CLOSE, 98]
   \<and> strip_ruby_and_notes [NOTE_OPEN, NOTE_HASH, 97, NOTE_CLOSE, 98] = Inr [98]"
  by (simp add: marker_free_def source_defs sublist_Cons_right)

text \<open>
  C7, amended: for a text that has none of the markers of steps 1 to 4, no ideographic
  space, and no carriage return before a carriage return and line feed, the normalizer
  applied to its own output returns that output.
\<close>

theorem normalize_idempotent:
  assumes "marker_free x" and "IDEOSP \<notin> set x" and "\<not> sublist [CR, CR, LF] x"
    and "strip_ruby_and_notes x = Inr y"
  shows "strip_ruby_and_notes y = Inr y"
proof -
  have y: "y = str_strip (spec_collapse (spec_crlf x))"
    using assms(1,2,4) by (simp add: marker_free_steps)
  have sub: "sublist y (spec_collapse (spec_crlf x))" unfolding y by (rule sublist_str_strip)
  have free: "marker_free y" unfolding y using assms(1) by (rule cleaned_marker_free)
  have "set y \<subseteq> set x"
    using set_mono_sublist [OF sub] spec_crlf_set [of x] by (auto simp: spec_collapse_set)
  then have ideo: "IDEOSP \<notin> set y" using assms(2) by auto
  have crlf: "\<not> sublist [CR, LF] y"
  proof
    assume "sublist [CR, LF] y"
    then have "sublist [CR, LF] (spec_collapse (spec_crlf x))"
      using sub by (rule sublist_order.order_trans)
    then have "sublist [CR, LF] (spec_crlf x)" by (rule spec_collapse_pair)
    then show False using spec_crlf_no_pair [OF assms(3)] by simp
  qed
  have three: "\<not> sublist [LF, LF, LF] y"
    using sub spec_collapse_no_three [of "spec_crlf x"] by (meson sublist_order.order_trans)
  have "strip_ruby_and_notes y = Inr (str_strip (spec_collapse (spec_crlf y)))"
    using free ideo by (rule marker_free_steps)
  also have "\<dots> = Inr (str_strip y)"
    using crlf three by (simp add: spec_crlf_id spec_collapse_id)
  also have "\<dots> = Inr y" unfolding y by (simp add: str_strip_idem)
  finally show ?thesis .
qed

theorem normalize_idempotent_witness:
  "marker_free [32, 72, CR, LF, 87, LF, LF, LF, LF, 69, LF]
   \<and> IDEOSP \<notin> set [32, 72, CR, LF, 87, LF, LF, LF, LF, 69, LF]
   \<and> \<not> sublist [CR, CR, LF] [32, 72, CR, LF, 87, LF, LF, LF, LF, 69, LF]
   \<and> strip_ruby_and_notes [32, 72, CR, LF, 87, LF, LF, LF, LF, 69, LF]
       = Inr [72, LF, 87, LF, LF, 69]
   \<and> strip_ruby_and_notes [72, LF, 87, LF, LF, 69] = Inr [72, LF, 87, LF, LF, 69]"
proof -
  have f: "marker_free [32, 72, CR, LF, 87, LF, LF, LF, LF, 69, LF]"
    by (simp add: marker_free_def source_defs sublist_Cons_right)
  have i: "IDEOSP \<notin> set [32, 72, CR, LF, 87, LF, LF, LF, LF, 69, LF]"
    by (simp add: IDEOSP_def CR_def LF_def)
  have c: "\<not> sublist [CR, CR, LF] [32, 72, CR, LF, 87, LF, LF, LF, LF, 69, LF]"
    by (simp add: CR_def LF_def sublist_Cons_right)
  have n: "strip_ruby_and_notes [32, 72, CR, LF, 87, LF, LF, LF, LF, 69, LF]
       = Inr [72, LF, 87, LF, LF, 69]"
    by (simp add: source_defs)
  show ?thesis
    using f i c n normalize_idempotent [OF f i c n] by simp
qed

end
